theory Spec2Isabelle
  imports Main "HOL-Library.AList"
begin

section \<open>The outline model of \<^verbatim>\<open>outlineModel.ts\<close>\<close>

text \<open>
  The source builds a tree of objects (one \<^verbatim>\<open>OutlineModel\<close>, its \<^verbatim>\<open>OutlineGroup\<close>s and
  their \<^verbatim>\<open>OutlineElement\<close>s), mutates the elements in place (\<^verbatim>\<open>score\<close>, \<^verbatim>\<open>parent\<close>)
  and shares them between dictionaries. The embedding therefore keeps the objects in an
  explicit store, addressed by references, one store per class as the static types of the
  source separate them. A dictionary (\<^verbatim>\<open>{ [id: string]: T }\<close>, created with
  \<^verbatim>\<open>Object.create(null)\<close>) is an association list in insertion order: \<^verbatim>\<open>for (key in d)\<close>
  visits the keys in that order, since every key the source uses starts with the id of its
  container and is never an array index. \<^verbatim>\<open>d[key] = v\<close> is \<^const>\<open>AList.update\<close>: an existing
  key keeps its place, a new one goes to the end.
\<close>

subsection \<open>Numbers appended to strings\<close>

text \<open>\<^verbatim>\<open>s + i\<close> for a string \<^verbatim>\<open>s\<close> and a counter \<^verbatim>\<open>i\<close> appends the decimal digits of \<^verbatim>\<open>i\<close>.\<close>

definition digit_char :: "nat \<Rightarrow> char" where
  "digit_char d = char_of (48 + d)"

fun show_nat :: "nat \<Rightarrow> string" where
  "show_nat n =
     (if n < 10 then [digit_char n] else show_nat (n div 10) @ [digit_char (n mod 10)])"

declare show_nat.simps [simp del]

subsection \<open>Data\<close>

type_synonym ref = nat

type_synonym 'v dict = "(string \<times> 'v) list"

text \<open>\<^verbatim>\<open>FuzzyScore = [number, number[]]\<close>; a field of this type that is \<^verbatim>\<open>undefined\<close> is \<open>None\<close>.\<close>

type_synonym FuzzyScore = "int \<times> nat list"

text \<open>
  \<^verbatim>\<open>SymbolInformation\<close> is declared outside this file; the fields the source reads are
  \<^verbatim>\<open>name\<close>, \<^verbatim>\<open>definingRange\<close> (optional), \<^verbatim>\<open>location.range\<close> and \<^verbatim>\<open>children\<close> (optional).
  The type of ranges is a parameter.
\<close>

datatype 'r SymbolInformation =
  SymbolInformation (name: string) (definingRange: "'r option") (location_range: 'r)
    (children: "'r SymbolInformation list option")

text \<open>A reference to a \<^verbatim>\<open>TreeElement\<close>: the model (\<^verbatim>\<open>this\<close>), a group or an element.\<close>

datatype tref = ModelRef | GroupRef ref | ElementRef ref

record 'r OutlineElement =
  e_id :: string
  e_parent :: tref
  e_symbol :: "'r SymbolInformation"
  e_children :: "ref dict"
  e_score :: "FuzzyScore option"

record OutlineGroup =
  g_id :: string
  g_parent :: tref
  g_providerIndex :: nat
  g_children :: "ref dict"

text \<open>
  The store of elements and groups, the allocation counter of \<^verbatim>\<open>new\<close>, and the two
  dictionaries of the model: \<^verbatim>\<open>_groups\<close> and \<^verbatim>\<open>children\<close>. The model's \<^verbatim>\<open>id\<close> is the
  constant \<^verbatim>\<open>'root'\<close> and its \<^verbatim>\<open>parent\<close> is \<^verbatim>\<open>undefined\<close>.
\<close>

record 'r state =
  elements :: "ref \<Rightarrow> 'r OutlineElement"
  groups :: "ref \<Rightarrow> OutlineGroup"
  next_ref :: ref
  m_groups :: "ref dict"
  m_children :: "tref dict"

text \<open>The fields of the abstract class \<^verbatim>\<open>TreeElement\<close> that its static methods read.\<close>

record 'c TreeElement =
  te_id :: string
  te_children :: "'c dict"

definition TreeElement_of :: "'r state \<Rightarrow> tref \<Rightarrow> tref TreeElement" where
  "TreeElement_of st r =
     (case r of
        ModelRef \<Rightarrow> \<lparr>te_id = ''root'', te_children = m_children st\<rparr>
      | GroupRef g \<Rightarrow> \<lparr>te_id = g_id (groups st g),
           te_children = map (\<lambda>(k, e). (k, ElementRef e)) (g_children (groups st g))\<rparr>
      | ElementRef e \<Rightarrow> \<lparr>te_id = e_id (elements st e),
           te_children = map (\<lambda>(k, c). (k, ElementRef c)) (e_children (elements st e))\<rparr>)"

subsection \<open>\<^verbatim>\<open>TreeElement.findId\<close>\<close>

text \<open>
  The loop \<^verbatim>\<open>for (let i = 1; container.children[id] !== void 0; i++) id = base + i\<close>, with
  \<^verbatim>\<open>base = container.id + candidate\<close>; its state is the pair of \<^verbatim>\<open>id\<close> and \<^verbatim>\<open>i\<close>.
\<close>

function findId_for :: "string \<Rightarrow> 'c dict \<Rightarrow> string \<Rightarrow> nat \<Rightarrow> string" where
  "findId_for base kids i_d i =
     (if map_of kids i_d \<noteq> None then findId_for base kids (base @ show_nat i) (Suc i) else i_d)"
  by pat_completeness auto

lemma digit_char_inj: "a < 10 \<Longrightarrow> b < 10 \<Longrightarrow> digit_char a = digit_char b \<Longrightarrow> a = b"
proof -
  assume a: "a < 10" and b: "b < 10" and e: "digit_char a = digit_char b"
  from e have "(of_char (digit_char a) :: nat) = of_char (digit_char b)" by simp
  with a b show "a = b" by (simp add: digit_char_def)
qed

lemma show_nat_nonempty: "show_nat n \<noteq> []" "[] \<noteq> show_nat n"
  by (subst show_nat.simps, simp)+

lemma show_nat_inj: "show_nat n = show_nat m \<Longrightarrow> n = m"
proof (induction n arbitrary: m rule: show_nat.induct)
  case (1 n)
  show ?case
  proof (cases "n < 10")
    case True
    show ?thesis
    proof (cases "m < 10")
      case True
      with \<open>n < 10\<close> "1.prems" show ?thesis
        by (simp add: show_nat.simps[of n] show_nat.simps[of m] digit_char_inj)
    next
      case False
      with \<open>n < 10\<close> "1.prems" show ?thesis
        by (simp add: show_nat.simps[of n] show_nat.simps[of m] show_nat_nonempty)
    qed
  next
    case False
    show ?thesis
    proof (cases "m < 10")
      case True
      with \<open>\<not> n < 10\<close> "1.prems" show ?thesis
        by (simp add: show_nat.simps[of n] show_nat.simps[of m] show_nat_nonempty)
    next
      case mf: False
      from False mf "1.prems" have e1: "show_nat (n div 10) = show_nat (m div 10)"
        and e2: "digit_char (n mod 10) = digit_char (m mod 10)"
        by (simp_all add: show_nat.simps[of n] show_nat.simps[of m])
      from "1.IH"[OF False e1] have "n div 10 = m div 10" .
      moreover from e2 have "n mod 10 = m mod 10" by (simp add: digit_char_inj)
      ultimately show ?thesis by (metis div_mult_mod_eq)
    qed
  qed
qed

lemma finite_taken_suffixes:
  "finite {j. i \<le> j \<and> map_of kids (base @ show_nat j) \<noteq> None}"
proof -
  have inj: "inj (\<lambda>j. base @ show_nat j)"
    by (rule injI) (simp add: show_nat_inj)
  have "{j. i \<le> j \<and> map_of kids (base @ show_nat j) \<noteq> None}
          \<subseteq> (\<lambda>j. base @ show_nat j) -` (fst ` set kids)"
    by (auto simp: map_of_eq_None_iff)
  moreover have "finite ((\<lambda>j. base @ show_nat j) -` (fst ` set kids))"
    by (rule finite_vimageI[OF _ inj]) simp
  ultimately show ?thesis by (rule finite_subset)
qed

termination findId_for
proof (relation "measure (\<lambda>(base, kids, i_d, i).
          if map_of kids i_d = None then 0
          else Suc (card {j. i \<le> j \<and> map_of kids (base @ show_nat j) \<noteq> None}))")
  show "wf (measure (\<lambda>(base, kids :: 'a dict, i_d, i).
          if map_of kids i_d = None then 0
          else Suc (card {j. i \<le> j \<and> map_of kids (base @ show_nat j) \<noteq> None})))"
    by simp
next
  fix base :: string and kids :: "'a dict" and i_d :: string and i :: nat
  assume taken: "map_of kids i_d \<noteq> None"
  let ?S = "\<lambda>i. {j. i \<le> j \<and> map_of kids (base @ show_nat j) \<noteq> None}"
  show "((base, kids, base @ show_nat i, Suc i), (base, kids, i_d, i)) \<in> measure (\<lambda>(base, kids, i_d, i).
          if map_of kids i_d = None then 0
          else Suc (card {j. i \<le> j \<and> map_of kids (base @ show_nat j) \<noteq> None}))"
  proof (cases "map_of kids (base @ show_nat i) = None")
    case True
    with taken show ?thesis by simp
  next
    case False
    then have "?S i = insert i (?S (Suc i))"
      by (auto simp: le_Suc_eq)
    moreover have "i \<notin> ?S (Suc i)" by simp
    moreover have "finite (?S (Suc i))" by (rule finite_taken_suffixes)
    ultimately have "card (?S i) = Suc (card (?S (Suc i)))"
      by (simp del: map_of_eq_None_iff)
    with taken False show ?thesis by (simp del: map_of_eq_None_iff)
  qed
qed

declare findId_for.simps [simp del]

definition findId :: "string \<Rightarrow> 'c TreeElement \<Rightarrow> string" where
  "findId candidate container =
     findId_for (te_id container @ candidate) (te_children container)
       (te_id container @ candidate) 1"

subsection \<open>\<^verbatim>\<open>TreeElement.getElementById\<close>\<close>

text \<open>
  The recursion follows references through the store, so it carries fuel: the number of
  nested calls the evaluation may make. \<open>None\<close> is an evaluation that ran out of fuel,
  \<open>Some None\<close> is the result \<^verbatim>\<open>undefined\<close>. The second function is the \<^verbatim>\<open>for\<close> loop over
  \<^verbatim>\<open>element.children\<close>.
\<close>

fun getElementById :: "nat \<Rightarrow> 'r state \<Rightarrow> string \<Rightarrow> tref \<Rightarrow> tref option option"
  and getElementById_for :: "nat \<Rightarrow> 'r state \<Rightarrow> string \<Rightarrow> tref dict \<Rightarrow> tref option option"
where
  "getElementById 0 st i_d element = None"
| "getElementById (Suc fuel) st i_d element =
     (if te_id (TreeElement_of st element) = i_d then Some (Some element)
      else getElementById_for fuel st i_d (te_children (TreeElement_of st element)))"
| "getElementById_for fuel st i_d [] = Some None"
| "getElementById_for fuel st i_d ((key, child) # rest) =
     (case getElementById fuel st i_d child of
        None \<Rightarrow> None
      | Some (Some candidate) \<Rightarrow> Some (Some candidate)
      | Some None \<Rightarrow> getElementById_for fuel st i_d rest)"

definition getItemById :: "nat \<Rightarrow> 'r state \<Rightarrow> string \<Rightarrow> tref option option" where
  "getItemById fuel st i_d = getElementById fuel st i_d ModelRef"

subsection \<open>\<^verbatim>\<open>OutlineGroup\<close>: matching\<close>

datatype error = TypeError

definition set_score :: "ref \<Rightarrow> FuzzyScore option \<Rightarrow> 'r state \<Rightarrow> 'r state" where
  "set_score item s st = st\<lparr>elements := (elements st)(item := (elements st item)\<lparr>e_score := s\<rparr>)\<rparr>"

text \<open>
  Line 84: \<^verbatim>\<open>if (item.score && (!topMatch || item.score[0] > topMatch.score[0])) topMatch = item\<close>.
  The scores are read from the store at this moment; reading \<^verbatim>\<open>topMatch.score[0]\<close> when
  \<^verbatim>\<open>topMatch.score\<close> is \<^verbatim>\<open>undefined\<close> throws.
\<close>

definition pick_topMatch :: "'r state \<Rightarrow> ref \<Rightarrow> ref option \<Rightarrow> error + ref option" where
  "pick_topMatch st item topMatch =
     (case e_score (elements st item) of
        None \<Rightarrow> Inr topMatch
      | Some s \<Rightarrow>
          (case topMatch of
             None \<Rightarrow> Inr (Some item)
           | Some t \<Rightarrow>
               (case e_score (elements st t) of
                  None \<Rightarrow> Inl TypeError
                | Some ts \<Rightarrow> Inr (if fst s > fst ts then Some item else topMatch))))"

text \<open>
  \<^verbatim>\<open>_updateMatches\<close> and its loop over \<^verbatim>\<open>item.children\<close>. The scorer \<^verbatim>\<open>fuzzyScore\<close> is imported
  by the source and is a parameter here.
\<close>

fun priv_updateMatches ::
    "nat \<Rightarrow> (string \<Rightarrow> string \<Rightarrow> FuzzyScore option) \<Rightarrow> string \<Rightarrow> ref \<Rightarrow> ref option \<Rightarrow> 'r state
       \<Rightarrow> (error + ref option \<times> 'r state) option"
  and priv_updateMatches_for ::
    "nat \<Rightarrow> (string \<Rightarrow> string \<Rightarrow> FuzzyScore option) \<Rightarrow> string \<Rightarrow> ref \<Rightarrow> ref dict \<Rightarrow> ref option
       \<Rightarrow> 'r state \<Rightarrow> (error + ref option \<times> 'r state) option"
where
  "priv_updateMatches 0 fuzzyScore pattern item topMatch st = None"
| "priv_updateMatches (Suc fuel) fuzzyScore pattern item topMatch st =
     (let st1 = set_score item (fuzzyScore pattern (name (e_symbol (elements st item)))) st in
      case pick_topMatch st1 item topMatch of
        Inl e \<Rightarrow> Some (Inl e)
      | Inr topMatch1 \<Rightarrow>
          priv_updateMatches_for fuel fuzzyScore pattern item (e_children (elements st1 item))
            topMatch1 st1)"
| "priv_updateMatches_for fuel fuzzyScore pattern item [] topMatch st = Some (Inr (topMatch, st))"
| "priv_updateMatches_for fuel fuzzyScore pattern item ((key, child) # rest) topMatch st =
     (case priv_updateMatches fuel fuzzyScore pattern child topMatch st of
        None \<Rightarrow> None
      | Some (Inl e) \<Rightarrow> Some (Inl e)
      | Some (Inr (topMatch1, st1)) \<Rightarrow>
          priv_updateMatches_for fuel fuzzyScore pattern item rest topMatch1
            (if e_score (elements st1 item) = None \<and> e_score (elements st1 child) \<noteq> None
             then set_score item (Some (0, [])) st1 else st1))"

text \<open>\<^verbatim>\<open>OutlineGroup.updateMatches\<close>: the loop over \<^verbatim>\<open>this.children\<close>.\<close>

fun updateMatches_for ::
    "nat \<Rightarrow> (string \<Rightarrow> string \<Rightarrow> FuzzyScore option) \<Rightarrow> string \<Rightarrow> ref dict \<Rightarrow> ref option
       \<Rightarrow> 'r state \<Rightarrow> (error + ref option \<times> 'r state) option"
where
  "updateMatches_for fuel fuzzyScore pattern [] topMatch st = Some (Inr (topMatch, st))"
| "updateMatches_for fuel fuzzyScore pattern ((key, child) # rest) topMatch st =
     (case priv_updateMatches fuel fuzzyScore pattern child topMatch st of
        None \<Rightarrow> None
      | Some (Inl e) \<Rightarrow> Some (Inl e)
      | Some (Inr (topMatch1, st1)) \<Rightarrow> updateMatches_for fuel fuzzyScore pattern rest topMatch1 st1)"

definition OutlineGroup_updateMatches ::
    "nat \<Rightarrow> (string \<Rightarrow> string \<Rightarrow> FuzzyScore option) \<Rightarrow> string \<Rightarrow> ref \<Rightarrow> ref option \<Rightarrow> 'r state
       \<Rightarrow> (error + ref option \<times> 'r state) option"
where
  "OutlineGroup_updateMatches fuel fuzzyScore pattern grp topMatch st =
     updateMatches_for fuel fuzzyScore pattern (g_children (groups st grp)) topMatch st"

subsection \<open>\<^verbatim>\<open>OutlineGroup\<close>: the element enclosing a position\<close>

text \<open>
  \<^verbatim>\<open>item.symbol.definingRange || item.symbol.location.range\<close>; \<^verbatim>\<open>Range.containsPosition\<close> is
  imported by the source and is a parameter here.
\<close>

definition range_of :: "'r SymbolInformation \<Rightarrow> 'r" where
  "range_of symbol = (case definingRange symbol of Some r \<Rightarrow> r | None \<Rightarrow> location_range symbol)"

fun priv_getItemEnclosingPosition ::
    "nat \<Rightarrow> ('r \<Rightarrow> 'p \<Rightarrow> bool) \<Rightarrow> 'r state \<Rightarrow> 'p \<Rightarrow> ref dict \<Rightarrow> ref option option"
where
  "priv_getItemEnclosingPosition 0 containsPosition st position kids = None"
| "priv_getItemEnclosingPosition (Suc fuel) containsPosition st position [] = Some None"
| "priv_getItemEnclosingPosition (Suc fuel) containsPosition st position ((key, item) # rest) =
     (if \<not> containsPosition (range_of (e_symbol (elements st item))) position
      then priv_getItemEnclosingPosition (Suc fuel) containsPosition st position rest
      else (case priv_getItemEnclosingPosition fuel containsPosition st position
                   (e_children (elements st item)) of
              None \<Rightarrow> None
            | Some (Some found) \<Rightarrow> Some (Some found)
            | Some None \<Rightarrow> Some (Some item)))"

definition OutlineGroup_getItemEnclosingPosition ::
    "nat \<Rightarrow> ('r \<Rightarrow> 'p \<Rightarrow> bool) \<Rightarrow> 'r state \<Rightarrow> 'p \<Rightarrow> ref \<Rightarrow> ref option option"
where
  "OutlineGroup_getItemEnclosingPosition fuel containsPosition st position grp =
     priv_getItemEnclosingPosition fuel containsPosition st position (g_children (groups st grp))"

subsection \<open>\<^verbatim>\<open>OutlineModel\<close>: queries\<close>

fun OutlineModel_updateMatches_for ::
    "nat \<Rightarrow> (string \<Rightarrow> string \<Rightarrow> FuzzyScore option) \<Rightarrow> string \<Rightarrow> ref dict \<Rightarrow> ref option
       \<Rightarrow> 'r state \<Rightarrow> (error + ref option \<times> 'r state) option"
where
  "OutlineModel_updateMatches_for fuel fuzzyScore pattern [] topMatch st = Some (Inr (topMatch, st))"
| "OutlineModel_updateMatches_for fuel fuzzyScore pattern ((key, grp) # rest) topMatch st =
     (case OutlineGroup_updateMatches fuel fuzzyScore pattern grp topMatch st of
        None \<Rightarrow> None
      | Some (Inl e) \<Rightarrow> Some (Inl e)
      | Some (Inr (topMatch1, st1)) \<Rightarrow>
          OutlineModel_updateMatches_for fuel fuzzyScore pattern rest topMatch1 st1)"

definition OutlineModel_updateMatches ::
    "nat \<Rightarrow> (string \<Rightarrow> string \<Rightarrow> FuzzyScore option) \<Rightarrow> string \<Rightarrow> 'r state
       \<Rightarrow> (error + ref option \<times> 'r state) option"
where
  "OutlineModel_updateMatches fuel fuzzyScore pattern st =
     OutlineModel_updateMatches_for fuel fuzzyScore pattern (m_groups st) None st"

fun OutlineModel_getItemEnclosingPosition_for ::
    "nat \<Rightarrow> ('r \<Rightarrow> 'p \<Rightarrow> bool) \<Rightarrow> 'r state \<Rightarrow> 'p \<Rightarrow> ref dict \<Rightarrow> ref option option"
where
  "OutlineModel_getItemEnclosingPosition_for fuel containsPosition st position [] = Some None"
| "OutlineModel_getItemEnclosingPosition_for fuel containsPosition st position ((key, grp) # rest) =
     (case OutlineGroup_getItemEnclosingPosition fuel containsPosition st position grp of
        None \<Rightarrow> None
      | Some (Some result) \<Rightarrow> Some (Some result)
      | Some None \<Rightarrow>
          OutlineModel_getItemEnclosingPosition_for fuel containsPosition st position rest)"

definition OutlineModel_getItemEnclosingPosition ::
    "nat \<Rightarrow> ('r \<Rightarrow> 'p \<Rightarrow> bool) \<Rightarrow> 'r state \<Rightarrow> 'p \<Rightarrow> ref option option"
where
  "OutlineModel_getItemEnclosingPosition fuel containsPosition st position =
     OutlineModel_getItemEnclosingPosition_for fuel containsPosition st position (m_groups st)"

subsection \<open>\<^verbatim>\<open>OutlineModel\<close>: building the tree\<close>

text \<open>\<^verbatim>\<open>container.children[key] = res\<close>, for a container of any of the three classes.\<close>

definition set_child :: "tref \<Rightarrow> string \<Rightarrow> ref \<Rightarrow> 'r state \<Rightarrow> 'r state" where
  "set_child container key res st =
     (case container of
        ModelRef \<Rightarrow> st\<lparr>m_children := AList.update key (ElementRef res) (m_children st)\<rparr>
      | GroupRef g \<Rightarrow>
          st\<lparr>groups := (groups st)(g := (groups st g)
                \<lparr>g_children := AList.update key res (g_children (groups st g))\<rparr>)\<rparr>
      | ElementRef e \<Rightarrow>
          st\<lparr>elements := (elements st)(e := (elements st e)
                \<lparr>e_children := AList.update key res (e_children (elements st e))\<rparr>)\<rparr>)"

text \<open>
  \<^verbatim>\<open>_makeOutlineElement\<close>: \<^verbatim>\<open>new OutlineElement(id, container, info)\<close> takes the next free
  reference; the field initialisers give it no children and the score \<^verbatim>\<open>[0, []]\<close>.
\<close>

fun priv_makeOutlineElement :: "'r SymbolInformation \<Rightarrow> tref \<Rightarrow> 'r state \<Rightarrow> 'r state" where
  "priv_makeOutlineElement (SymbolInformation nm dr loc kids) container st =
     (let i_d = findId nm (TreeElement_of st container);
          res = next_ref st;
          st1 = st\<lparr>elements := (elements st)(res :=
                    \<lparr>e_id = i_d, e_parent = container,
                     e_symbol = SymbolInformation nm dr loc kids,
                     e_children = [], e_score = Some (0, [])\<rparr>),
                  next_ref := Suc res\<rparr>;
          st2 = (case kids of
                   None \<Rightarrow> st1
                 | Some cs \<Rightarrow>
                     fold (\<lambda>childInfo. priv_makeOutlineElement childInfo (ElementRef res)) cs st1)
      in set_child container (e_id (elements st2 res)) res st2)"

text \<open>
  What a provider's promise settles with: it rejects, or it resolves with a result that
  may be absent (\<^verbatim>\<open>undefined\<close> or \<^verbatim>\<open>null\<close>).
\<close>

datatype 'r outcome = Rejected | Resolved "'r SymbolInformation list option"

text \<open>
  Modelled from the spec: \<^verbatim>\<open>isFalsyOrEmpty\<close> of \<^verbatim>\<open>vs/base/common/arrays\<close>, which holds of
  an empty or absent result.
\<close>

definition isFalsyOrEmpty :: "'a list option \<Rightarrow> bool" where
  "isFalsyOrEmpty result = (case result of None \<Rightarrow> True | Some xs \<Rightarrow> xs = [])"

text \<open>
  Modelled from the spec: \<^verbatim>\<open>size\<close> and \<^verbatim>\<open>first\<close> of \<^verbatim>\<open>vs/base/common/collections\<close>, the
  number of entries of a dictionary (the group count) and the value of its first entry.
\<close>

definition size_dict :: "'v dict \<Rightarrow> nat" where
  "size_dict d = length d"

definition first_dict :: "'v dict \<Rightarrow> 'v option" where
  "first_dict d = (case d of [] \<Rightarrow> None | (key, v) # rest \<Rightarrow> Some v)"

text \<open>
  The synchronous part of the callback of \<^verbatim>\<open>map\<close> (lines 142 and 143): the id and the new
  group of the provider with the given index.
\<close>

definition new_OutlineGroup :: "nat \<Rightarrow> 'r state \<Rightarrow> ref \<times> 'r state" where
  "new_OutlineGroup index st =
     (let i_d = findId (''provider_'' @ show_nat index) (TreeElement_of st ModelRef);
          grp = next_ref st
      in (grp,
          st\<lparr>groups := (groups st)(grp :=
                \<lparr>g_id = i_d, g_parent = ModelRef, g_providerIndex = index, g_children = []\<rparr>),
             next_ref := Suc grp\<rparr>))"

fun start_providers :: "nat list \<Rightarrow> 'r state \<Rightarrow> ref list \<times> 'r state" where
  "start_providers [] st = ([], st)"
| "start_providers (index # rest) st =
     (let (grp, st1) = new_OutlineGroup index st;
          (gs, st2) = start_providers rest st1
      in (grp # gs, st2))"

text \<open>
  The continuations of one provider's promise (lines 145 to 157): the elements of a
  non-empty result are made under the group, a rejection is swallowed, and the group is
  recorded in \<^verbatim>\<open>_groups\<close> under its id.
\<close>

definition provider_settled :: "'r outcome \<Rightarrow> ref \<Rightarrow> 'r state \<Rightarrow> 'r state" where
  "provider_settled outcome grp st =
     (let st1 = (case outcome of
                   Resolved result \<Rightarrow>
                     if \<not> isFalsyOrEmpty result
                     then fold (\<lambda>info. priv_makeOutlineElement info (GroupRef grp)) (the result) st
                     else st
                 | Rejected \<Rightarrow> st)
      in st1\<lparr>m_groups := AList.update (g_id (groups st1 grp)) grp (m_groups st1)\<rparr>)"

text \<open>The loop of lines 168 to 172, which adopts the elements of the first group.\<close>

fun adopt_for :: "ref dict \<Rightarrow> 'r state \<Rightarrow> 'r state" where
  "adopt_for [] st = st"
| "adopt_for ((key, child) # rest) st =
     adopt_for rest
       (st\<lparr>elements := (elements st)(child := (elements st child)\<lparr>e_parent := ModelRef\<rparr>),
           m_children := AList.update (e_id (elements st child)) (ElementRef child) (m_children st)\<rparr>)"

text \<open>
  The continuation of \<^verbatim>\<open>TPromise.join\<close> (lines 160 to 173). \<^verbatim>\<open>this.children = this._groups\<close>
  makes the two fields one dictionary; nothing writes to it afterwards, so the embedding
  copies its entries. \<^verbatim>\<open>first\<close> has a result when the size is 1.
\<close>

definition join_then :: "'r state \<Rightarrow> 'r state" where
  "join_then st =
     (if size_dict (m_groups st) \<noteq> 1
      then st\<lparr>m_children := map (\<lambda>(key, g). (key, GroupRef g)) (m_groups st)\<rparr>
      else (case first_dict (m_groups st) of
              None \<Rightarrow> st
            | Some grp \<Rightarrow> adopt_for (g_children (groups st grp)) st))"

text \<open>
  \<^verbatim>\<open>_makeRequest\<close>, as one fetch cycle that runs to its end. \<^verbatim>\<open>outcomes\<close> is what the
  provider of each index settles with, and \<^verbatim>\<open>order\<close> lists the indices in the order in
  which the promises settle.
\<close>

definition settle_all :: "'r outcome list \<Rightarrow> ref list \<Rightarrow> nat list \<Rightarrow> 'r state \<Rightarrow> 'r state" where
  "settle_all outcomes gs order st =
     fold (\<lambda>index. provider_settled (outcomes ! index) (gs ! index)) order st"

definition priv_makeRequest :: "'r outcome list \<Rightarrow> nat list \<Rightarrow> 'r state \<Rightarrow> 'r state" where
  "priv_makeRequest outcomes order st =
     (let (gs, st1) = start_providers [0..<length outcomes] st
      in join_then (settle_all outcomes gs order st1))"

text \<open>
  \<^verbatim>\<open>refresh\<close> empties both dictionaries and makes the request again; the constructor does
  the same on the dictionaries its field initialisers create.
\<close>

definition refresh :: "'r outcome list \<Rightarrow> nat list \<Rightarrow> 'r state \<Rightarrow> 'r state" where
  "refresh outcomes order st = priv_makeRequest outcomes order (st\<lparr>m_groups := [], m_children := []\<rparr>)"

subsection \<open>The tree below a reference\<close>

text \<open>
  A shape is the finite tree that the store holds below a reference: \<open>holds st t\<close> says that
  the children of each node of \<open>t\<close> are, in order, the values of the children dictionary
  of that object in \<open>st\<close>. A store with a cycle holds no shape. The height of a shape bounds
  the fuel that a traversal needs.
\<close>

datatype 'a shape = Shape (root: 'a) (subtrees: "'a shape list")

fun preorder :: "'a shape \<Rightarrow> 'a list" where
  "preorder (Shape r ts) = r # concat (map preorder ts)"

fun height :: "'a shape \<Rightarrow> nat" where
  "height (Shape r ts) = Suc (foldr max (map height ts) 0)"

fun holds :: "'r state \<Rightarrow> tref shape \<Rightarrow> bool" where
  "holds st (Shape r ts) \<longleftrightarrow>
     map snd (te_children (TreeElement_of st r)) = map root ts \<and> (\<forall>t \<in> set ts. holds st t)"

text \<open>The same for the elements alone: the tree below an element, the forest below a dictionary of elements.\<close>

fun holds_element :: "'r state \<Rightarrow> ref shape \<Rightarrow> bool" where
  "holds_element st (Shape r ts) \<longleftrightarrow>
     map snd (e_children (elements st r)) = map root ts \<and> (\<forall>t \<in> set ts. holds_element st t)"

definition holds_forest :: "'r state \<Rightarrow> ref dict \<Rightarrow> ref shape list \<Rightarrow> bool" where
  "holds_forest st kids ts \<longleftrightarrow> map snd kids = map root ts \<and> (\<forall>t \<in> set ts. holds_element st t)"

definition height_forest :: "'a shape list \<Rightarrow> nat" where
  "height_forest ts = foldr max (map height ts) 0"

fun subshapes :: "'a shape \<Rightarrow> 'a shape list" where
  "subshapes (Shape r ts) = Shape r ts # concat (map subshapes ts)"

definition descendants :: "'a shape \<Rightarrow> 'a list" where
  "descendants s = concat (map preorder (subtrees s))"

text \<open>
  The element that the walk of claim C4 ends in: take the first tree of the forest whose
  root satisfies \<open>P\<close>, continue among its children, and stop at the root whose children
  have no such tree.
\<close>

function enclosing :: "('a \<Rightarrow> bool) \<Rightarrow> 'a shape list \<Rightarrow> 'a option" where
  "enclosing P [] = None"
| "enclosing P (Shape r ts # rest) =
     (if P r then (case enclosing P ts of Some x \<Rightarrow> Some x | None \<Rightarrow> Some r)
      else enclosing P rest)"
  by pat_completeness auto
termination
  by (relation "measure (\<lambda>(P, ts). size_list size ts)") auto

text \<open>Properly nested ranges: a child that satisfies \<open>P\<close> has a parent that satisfies it.\<close>

fun nested :: "('a \<Rightarrow> bool) \<Rightarrow> 'a shape \<Rightarrow> bool" where
  "nested P (Shape r ts) \<longleftrightarrow> (\<forall>t \<in> set ts. (P (root t) \<longrightarrow> P r) \<and> nested P t)"

definition contains_at :: "('r \<Rightarrow> 'p \<Rightarrow> bool) \<Rightarrow> 'r state \<Rightarrow> 'p \<Rightarrow> ref \<Rightarrow> bool" where
  "contains_at containsPosition st position item \<longleftrightarrow>
     containsPosition (range_of (e_symbol (elements st item))) position"

text \<open>The first result that is not none, and none when every result is none.\<close>

definition first_some :: "'a option list \<Rightarrow> 'a option" where
  "first_some rs = (case find (\<lambda>r. r \<noteq> None) rs of None \<Rightarrow> None | Some r \<Rightarrow> r)"

subsection \<open>Notions of the matching claims\<close>

text \<open>The score of an element's own name against the pattern.\<close>

definition own_score ::
    "(string \<Rightarrow> string \<Rightarrow> FuzzyScore option) \<Rightarrow> string \<Rightarrow> 'r state \<Rightarrow> ref \<Rightarrow> FuzzyScore option" where
  "own_score fuzzyScore pattern st item = fuzzyScore pattern (name (e_symbol (elements st item)))"

text \<open>
  The score that claim C2 expects at the root of a tree after matching: the own score
  when there is one, else \<^verbatim>\<open>[0, []]\<close> when a descendant has an own score, else none.
\<close>

definition expected_score :: "('a \<Rightarrow> FuzzyScore option) \<Rightarrow> 'a shape \<Rightarrow> FuzzyScore option" where
  "expected_score own s =
     (case own (root s) of
        Some sc \<Rightarrow> Some sc
      | None \<Rightarrow> if \<exists>d \<in> set (descendants s). own d \<noteq> None then Some (0, []) else None)"

text \<open>
  The accumulator of claim C3: an element displaces the current best only when its own
  score is not empty and there is no best yet or its match value is strictly greater.
\<close>

definition best :: "('a \<Rightarrow> FuzzyScore option) \<Rightarrow> 'a option \<Rightarrow> 'a \<Rightarrow> 'a option" where
  "best own tm x =
     (case own x of
        None \<Rightarrow> tm
      | Some s \<Rightarrow>
          (case tm of
             None \<Rightarrow> Some x
           | Some t \<Rightarrow>
               (case own t of
                  None \<Rightarrow> tm
                | Some ts \<Rightarrow> if fst ts < fst s then Some x else tm)))"

text \<open>Two stores that differ at most in the scores of elements.\<close>

definition scores_only :: "'r state \<Rightarrow> 'r state \<Rightarrow> bool" where
  "scores_only st st' \<longleftrightarrow>
     st' = st\<lparr>elements := (\<lambda>x. (elements st x)\<lparr>e_score := e_score (elements st' x)\<rparr>)\<rparr>"

text \<open>
  The accumulator that a traversal starts with: none, or an element outside the elements
  still to visit that holds its own, non-empty score.
\<close>

definition top_ok :: "(ref \<Rightarrow> FuzzyScore option) \<Rightarrow> 'r state \<Rightarrow> ref list \<Rightarrow> ref option \<Rightarrow> bool" where
  "top_ok own st todo tm \<longleftrightarrow>
     (case tm of
        None \<Rightarrow> True
      | Some x \<Rightarrow> x \<notin> set todo \<and> own x \<noteq> None \<and> e_score (elements st x) = own x)"

text \<open>
  The store after matching a forest: only scores changed, only inside the forest, and
  every root of a subtree has the expected score.
\<close>

definition updated ::
    "(ref \<Rightarrow> FuzzyScore option) \<Rightarrow> ref shape list \<Rightarrow> 'r state \<Rightarrow> 'r state \<Rightarrow> bool" where
  "updated own ts st st' \<longleftrightarrow>
     scores_only st st'
     \<and> (\<forall>x. x \<notin> set (concat (map preorder ts)) \<longrightarrow> e_score (elements st' x) = e_score (elements st x))
     \<and> (\<forall>s \<in> set (concat (map subshapes ts)). e_score (elements st' (root s)) = expected_score own s)"

text \<open>The same while the loop over the children of \<open>item\<close> runs.\<close>

definition updated_item ::
    "(ref \<Rightarrow> FuzzyScore option) \<Rightarrow> ref \<Rightarrow> ref shape list \<Rightarrow> 'r state \<Rightarrow> 'r state \<Rightarrow> bool" where
  "updated_item own item ts st st' \<longleftrightarrow>
     scores_only st st'
     \<and> (\<forall>x. x \<notin> set (item # concat (map preorder ts))
            \<longrightarrow> e_score (elements st' x) = e_score (elements st x))
     \<and> (\<forall>s \<in> set (concat (map subshapes ts)).
            e_score (elements st' (root s)) = expected_score own s)
     \<and> e_score (elements st' item)
         = (case e_score (elements st item) of
              Some sc \<Rightarrow> Some sc
            | None \<Rightarrow> if \<exists>x \<in> set (concat (map preorder ts)). own x \<noteq> None
                      then Some (0, []) else None)"

text \<open>An accumulator that is none or an element with an own score.\<close>

definition tm_valid :: "('a \<Rightarrow> FuzzyScore option) \<Rightarrow> 'a option \<Rightarrow> bool" where
  "tm_valid own tm \<longleftrightarrow> (case tm of None \<Rightarrow> True | Some t \<Rightarrow> own t \<noteq> None)"

subsection \<open>An example store\<close>

text \<open>
  The store after one provider returned \<^verbatim>\<open>Foo\<close> (range 0 to 10) and \<^verbatim>\<open>Bar\<close> (range 11 to 20)
  with the child \<^verbatim>\<open>Baz\<close> (range 12 to 15): the sole group has been adopted. Ranges are pairs
  of offsets and positions are offsets.
\<close>

definition example_element ::
    "string \<Rightarrow> tref \<Rightarrow> string \<Rightarrow> nat \<times> nat \<Rightarrow> ref dict \<Rightarrow> FuzzyScore option \<Rightarrow> (nat \<times> nat) OutlineElement" where
  "example_element i_d parent nm rng kids sc =
     \<lparr>e_id = i_d, e_parent = parent, e_symbol = SymbolInformation nm None rng None,
      e_children = kids, e_score = sc\<rparr>"

definition example_state :: "(nat \<times> nat) state" where
  "example_state =
     \<lparr>elements = (\<lambda>r.
          if r = 1 then example_element ''rootprovider_0Foo'' ModelRef ''Foo'' (0, 10) [] (Some (0, []))
          else if r = 2 then example_element ''rootprovider_0Bar'' ModelRef ''Bar'' (11, 20)
                               [(''rootprovider_0BarBaz'', 3)] (Some (0, []))
          else example_element ''rootprovider_0BarBaz'' (ElementRef 2) ''Baz'' (12, 15) [] (Some (0, []))),
      groups = (\<lambda>r. \<lparr>g_id = ''rootprovider_0'', g_parent = ModelRef, g_providerIndex = 0,
                      g_children = [(''rootprovider_0Foo'', 1), (''rootprovider_0Bar'', 2)]\<rparr>),
      next_ref = 4,
      m_groups = [(''rootprovider_0'', 0)],
      m_children = [(''rootprovider_0Foo'', ElementRef 1), (''rootprovider_0Bar'', ElementRef 2)]\<rparr>"

definition example_tree :: "tref shape" where
  "example_tree = Shape ModelRef [Shape (ElementRef 1) [], Shape (ElementRef 2) [Shape (ElementRef 3) []]]"


definition example_contains :: "nat \<times> nat \<Rightarrow> nat \<Rightarrow> bool" where
  "example_contains r p \<longleftrightarrow> fst r \<le> p \<and> p \<le> snd r"

definition example_fuzzyScore :: "string \<Rightarrow> string \<Rightarrow> FuzzyScore option" where
  "example_fuzzyScore pattern text = (if pattern = text then Some (10, [0]) else None)"

text \<open>
  The store after one provider returned \<^verbatim>\<open>A\<close> (range 0 to 10) with the child \<^verbatim>\<open>B\<close> (range 20
  to 30), which has the child \<^verbatim>\<open>C\<close> (range 0 to 10); the sole group has been adopted.
\<close>

definition nonnested_state :: "(nat \<times> nat) state" where
  "nonnested_state =
     \<lparr>elements = (\<lambda>r.
          if r = 1 then example_element ''rootprovider_0A'' ModelRef ''A'' (0, 10)
                          [(''rootprovider_0AB'', 2)] (Some (0, []))
          else if r = 2 then example_element ''rootprovider_0AB'' (ElementRef 1) ''B'' (20, 30)
                               [(''rootprovider_0ABC'', 3)] (Some (0, []))
          else example_element ''rootprovider_0ABC'' (ElementRef 2) ''C'' (0, 10) [] (Some (0, []))),
      groups = (\<lambda>r. \<lparr>g_id = ''rootprovider_0'', g_parent = ModelRef, g_providerIndex = 0,
                      g_children = [(''rootprovider_0A'', 1)]\<rparr>),
      next_ref = 4,
      m_groups = [(''rootprovider_0'', 0)],
      m_children = [(''rootprovider_0A'', ElementRef 1)]\<rparr>"

text \<open>
  The store after two providers: the first returned \<^verbatim>\<open>A\<close> (range 0 to 10), the second \<^verbatim>\<open>B\<close>
  (range 5 to 20) with the child \<^verbatim>\<open>C\<close> (range 6 to 8).
\<close>

definition two_group_state :: "(nat \<times> nat) state" where
  "two_group_state =
     \<lparr>elements = (\<lambda>r.
          if r = 2 then example_element ''rootprovider_0A'' (GroupRef 0) ''A'' (0, 10) [] (Some (0, []))
          else if r = 3 then example_element ''rootprovider_1B'' (GroupRef 1) ''B'' (5, 20)
                               [(''rootprovider_1BC'', 4)] (Some (0, []))
          else example_element ''rootprovider_1BC'' (ElementRef 3) ''C'' (6, 8) [] (Some (0, []))),
      groups = (\<lambda>r.
          if r = 0 then \<lparr>g_id = ''rootprovider_0'', g_parent = ModelRef, g_providerIndex = 0,
                         g_children = [(''rootprovider_0A'', 2)]\<rparr>
          else \<lparr>g_id = ''rootprovider_1'', g_parent = ModelRef, g_providerIndex = 1,
                 g_children = [(''rootprovider_1B'', 3)]\<rparr>),
      next_ref = 5,
      m_groups = [(''rootprovider_0'', 0), (''rootprovider_1'', 1)],
      m_children = [(''rootprovider_0'', GroupRef 0), (''rootprovider_1'', GroupRef 1)]\<rparr>"

text \<open>The store after one provider returned two symbols named \<^verbatim>\<open>ab\<close>; the sole group has been adopted.\<close>

definition tie_state :: "(nat \<times> nat) state" where
  "tie_state =
     \<lparr>elements = (\<lambda>r.
          if r = 1 then example_element ''rootprovider_0ab'' ModelRef ''ab'' (0, 10) [] (Some (0, []))
          else example_element ''rootprovider_0ab1'' ModelRef ''ab'' (11, 20) [] (Some (0, []))),
      groups = (\<lambda>r. \<lparr>g_id = ''rootprovider_0'', g_parent = ModelRef, g_providerIndex = 0,
                      g_children = [(''rootprovider_0ab'', 1), (''rootprovider_0ab1'', 2)]\<rparr>),
      next_ref = 3,
      m_groups = [(''rootprovider_0'', 0)],
      m_children = [(''rootprovider_0ab'', ElementRef 1), (''rootprovider_0ab1'', ElementRef 2)]\<rparr>"

section \<open>Properties\<close>

subsection \<open>Fresh ids\<close>

lemma findId_for_unused: "map_of kids (findId_for base kids i_d i) = None"
proof (induction base kids i_d i rule: findId_for.induct)
  case (1 base kids i_d i)
  show ?case
  proof (cases "map_of kids i_d = None")
    case True
    then show ?thesis by (subst findId_for.simps) simp
  next
    case False
    with "1.IH" show ?thesis by (subst findId_for.simps) simp
  qed
qed

lemma findId_for_free: "map_of kids i_d = None \<Longrightarrow> findId_for base kids i_d i = i_d"
  by (subst findId_for.simps) simp

lemma findId_for_taken:
  "map_of kids i_d \<noteq> None \<Longrightarrow>
   \<exists>k\<ge>i. findId_for base kids i_d i = base @ show_nat k
        \<and> (\<forall>j. i \<le> j \<and> j < k \<longrightarrow> map_of kids (base @ show_nat j) \<noteq> None)"
proof (induction base kids i_d i rule: findId_for.induct)
  case (1 base kids i_d i)
  have unf: "findId_for base kids i_d i = findId_for base kids (base @ show_nat i) (Suc i)"
    using "1.prems" by (subst findId_for.simps) simp
  show ?case
  proof (cases "map_of kids (base @ show_nat i) = None")
    case True
    then have "findId_for base kids i_d i = base @ show_nat i"
      using unf by (simp add: findId_for_free)
    then show ?thesis by (intro exI[of _ i]) auto
  next
    case False
    from "1.IH"[OF "1.prems" False] obtain k where k: "Suc i \<le> k"
      "findId_for base kids (base @ show_nat i) (Suc i) = base @ show_nat k"
      "\<forall>j. Suc i \<le> j \<and> j < k \<longrightarrow> map_of kids (base @ show_nat j) \<noteq> None"
      by blast
    have "\<forall>j. i \<le> j \<and> j < k \<longrightarrow> map_of kids (base @ show_nat j) \<noteq> None"
    proof (intro allI impI)
      fix j assume "i \<le> j \<and> j < k"
      then have "j = i \<or> (Suc i \<le> j \<and> j < k)" by arith
      with False k(3) show "map_of kids (base @ show_nat j) \<noteq> None" by blast
    qed
    with k unf show ?thesis by (intro exI[of _ k]) simp
  qed
qed

text \<open>
  Claim C5. For every container \<open>C\<close> and candidate \<open>s\<close>, \<^verbatim>\<open>findId(s, C)\<close> is not a key of the
  children of \<open>C\<close>. It is \<^verbatim>\<open>C.id + s\<close> when that key is unused; otherwise it is \<^verbatim>\<open>C.id + s + k\<close>
  for the least \<open>k\<close> from 1 on whose key is unused. Once the returned id is a key of the
  children of \<open>C\<close>, calling \<^verbatim>\<open>findId(s, C)\<close> again returns a different id.
\<close>

theorem findId_unused:
  "map_of (te_children C) (findId s C) = None
   \<and> (map_of (te_children C) (te_id C @ s) = None \<longrightarrow> findId s C = te_id C @ s)
   \<and> (map_of (te_children C) (te_id C @ s) \<noteq> None \<longrightarrow>
        (\<exists>k\<ge>1. findId s C = te_id C @ s @ show_nat k
           \<and> (\<forall>j. 1 \<le> j \<and> j < k \<longrightarrow> map_of (te_children C) (te_id C @ s @ show_nat j) \<noteq> None)))
   \<and> findId s (C\<lparr>te_children := AList.update (findId s C) v (te_children C)\<rparr>) \<noteq> findId s C"
proof (intro conjI impI)
  show "map_of (te_children C) (findId s C) = None"
    unfolding findId_def by (rule findId_for_unused)
next
  assume "map_of (te_children C) (te_id C @ s) = None"
  then show "findId s C = te_id C @ s"
    unfolding findId_def by (rule findId_for_free)
next
  assume "map_of (te_children C) (te_id C @ s) \<noteq> None"
  from findId_for_taken[OF this, of 1 "te_id C @ s"]
  show "\<exists>k\<ge>1. findId s C = te_id C @ s @ show_nat k
           \<and> (\<forall>j. 1 \<le> j \<and> j < k \<longrightarrow> map_of (te_children C) (te_id C @ s @ show_nat j) \<noteq> None)"
    unfolding findId_def by simp
next
  let ?C' = "C\<lparr>te_children := AList.update (findId s C) v (te_children C)\<rparr>"
  have "map_of (te_children ?C') (findId s ?C') = None"
    unfolding findId_def by (rule findId_for_unused)
  moreover have "map_of (te_children ?C') (findId s C) = Some v"
    by (simp add: update_conv')
  ultimately show "findId s ?C' \<noteq> findId s C" by auto
qed

text \<open>The container \<^verbatim>\<open>root\<close> with the children \<^verbatim>\<open>rootFoo\<close> and \<^verbatim>\<open>rootFoo1\<close>, and the candidate \<^verbatim>\<open>Foo\<close>.\<close>

theorem findId_unused_witness:
  "map_of [(''rootFoo'', 1::nat), (''rootFoo1'', 2)] (''root'' @ ''Foo'') \<noteq> None
   \<and> map_of [(''rootFoo'', 1::nat), (''rootFoo1'', 2)]
        (findId ''Foo'' \<lparr>te_id = ''root'', te_children = [(''rootFoo'', 1::nat), (''rootFoo1'', 2)]\<rparr>) = None
   \<and> (\<exists>k\<ge>1. findId ''Foo'' \<lparr>te_id = ''root'', te_children = [(''rootFoo'', 1::nat), (''rootFoo1'', 2)]\<rparr>
          = ''root'' @ ''Foo'' @ show_nat k)"
  using findId_unused[of "\<lparr>te_id = ''root'', te_children = [(''rootFoo'', 1::nat), (''rootFoo1'', 2)]\<rparr>" "''Foo''" 0]
  by auto

subsection \<open>Lookup by id\<close>

lemma height_subtree: "t \<in> set ts \<Longrightarrow> height t \<le> foldr max (map height ts) 0"
  by (induction ts) auto

lemma find_append_shape:
  "find P (xs @ ys) = (case find P xs of Some x \<Rightarrow> Some x | None \<Rightarrow> find P ys)"
  by (induction xs) auto

lemma getElementById_for_preorder:
  assumes "\<And>t. t \<in> set ts \<Longrightarrow>
             getElementById n st i_d (root t) = Some (find (\<lambda>r. te_id (TreeElement_of st r) = i_d) (preorder t))"
      and "map snd kids = map root ts"
  shows "getElementById_for n st i_d kids
           = Some (find (\<lambda>r. te_id (TreeElement_of st r) = i_d) (concat (map preorder ts)))"
  using assms
proof (induction ts arbitrary: kids)
  case Nil
  then show ?case by simp
next
  case (Cons t ts)
  from Cons.prems(2) obtain key rest where kids: "kids = (key, root t) # rest"
    and rest: "map snd rest = map root ts"
    by (cases kids) auto
  have here: "getElementById n st i_d (root t)
                = Some (find (\<lambda>r. te_id (TreeElement_of st r) = i_d) (preorder t))"
    by (rule Cons.prems(1)) simp
  have there: "getElementById_for n st i_d rest
                = Some (find (\<lambda>r. te_id (TreeElement_of st r) = i_d) (concat (map preorder ts)))"
    by (rule Cons.IH[OF _ rest]) (simp add: Cons.prems(1))
  show ?case
    by (simp add: kids here there find_append_shape split: option.splits)
qed

lemma getElementById_find:
  "holds st t \<Longrightarrow> height t \<le> fuel \<Longrightarrow>
   getElementById fuel st i_d (root t)
     = Some (find (\<lambda>r. te_id (TreeElement_of st r) = i_d) (preorder t))"
proof (induction t arbitrary: fuel)
  case (Shape r ts)
  from Shape.prems(2) obtain n where fuel: "fuel = Suc n" and n: "foldr max (map height ts) 0 \<le> n"
    by (cases fuel) auto
  from Shape.prems(1) have kids: "map snd (te_children (TreeElement_of st r)) = map root ts"
    and sub: "\<And>t. t \<in> set ts \<Longrightarrow> holds st t" by auto
  have "getElementById_for n st i_d (te_children (TreeElement_of st r))
          = Some (find (\<lambda>r. te_id (TreeElement_of st r) = i_d) (concat (map preorder ts)))"
  proof (rule getElementById_for_preorder[OF _ kids])
    fix t assume t: "t \<in> set ts"
    with n height_subtree[OF t] have "height t \<le> n" by simp
    from Shape.IH[OF t sub[OF t] this]
    show "getElementById n st i_d (root t)
            = Some (find (\<lambda>r. te_id (TreeElement_of st r) = i_d) (preorder t))" .
  qed
  then show ?case by (simp add: fuel)
qed

lemma holds_child_in_preorder:
  "holds st t \<Longrightarrow> c \<in> set (preorder t) \<Longrightarrow> x \<in> snd ` set (te_children (TreeElement_of st c))
     \<Longrightarrow> x \<in> set (preorder t)"
proof (induction t)
  case (Shape r ts)
  show ?case
  proof (cases "c = r")
    case True
    from Shape.prems(1) have "map snd (te_children (TreeElement_of st r)) = map root ts" by simp
    then have "snd ` set (te_children (TreeElement_of st r)) = root ` set ts"
      by (metis set_map)
    with Shape.prems(3) True obtain t where t: "t \<in> set ts" "x = root t" by auto
    have "root t \<in> set (preorder t)" by (cases t) simp
    with t show ?thesis by auto
  next
    case False
    with Shape.prems(2) obtain t where t: "t \<in> set ts" "c \<in> set (preorder t)" by auto
    with Shape.prems(1) have "holds st t" by simp
    from Shape.IH[OF t(1) this t(2) Shape.prems(3)] t(1) show ?thesis by auto
  qed
qed

lemma set_child_is_child:
  "ElementRef n \<in> snd ` set (te_children (TreeElement_of (set_child c key n st) c))"
proof -
  have u: "\<And>v (al :: 'v dict). (key, v) \<in> set (AList.update key v al)"
    by (metis map_of_SomeD update_Some_unfold update_conv')
  show ?thesis
  proof (cases c)
    case ModelRef
    with u[of "ElementRef n" "m_children st"] show ?thesis
      by (force simp: set_child_def TreeElement_of_def)
  next
    case (GroupRef g)
    with u[of n "g_children (groups st g)"] show ?thesis
      by (force simp: set_child_def TreeElement_of_def)
  next
    case (ElementRef e)
    with u[of n "e_children (elements st e)"] show ?thesis
      by (force simp: set_child_def TreeElement_of_def)
  qed
qed

lemma set_child_id: "e_id (elements (set_child c key n st) m) = e_id (elements st m)"
  by (cases c) (simp_all add: set_child_def)

text \<open>
  Claim C9. On a store that holds the tree \<open>t\<close> below \<open>e\<close>, \<^verbatim>\<open>getElementById(id, e)\<close> returns the
  first node in pre-order (\<open>e\<close> itself first) whose \<^verbatim>\<open>id\<close> equals the queried id, and
  \<^verbatim>\<open>undefined\<close> when there is none. Hence every node of the tree is found by its id, up to
  a node with the same id; in particular an element that was just inserted into the
  children of a node of the tree, keyed by its id.
\<close>

theorem getElementById_preorder:
  "holds st t \<Longrightarrow> height t \<le> fuel \<Longrightarrow>
     getElementById fuel st i_d (root t)
       = Some (find (\<lambda>r. te_id (TreeElement_of st r) = i_d) (preorder t))
     \<and> (\<forall>r \<in> set (preorder t). \<exists>r'.
           getElementById fuel st (te_id (TreeElement_of st r)) (root t) = Some (Some r')
           \<and> te_id (TreeElement_of st r') = te_id (TreeElement_of st r))
     \<and> (\<forall>c n st0. st = set_child c (e_id (elements st0 n)) n st0 \<and> c \<in> set (preorder t) \<longrightarrow>
           (\<exists>r'. getElementById fuel st (e_id (elements st0 n)) (root t) = Some (Some r')
              \<and> te_id (TreeElement_of st r') = e_id (elements st0 n)))"
proof (intro conjI ballI allI impI)
  assume h: "holds st t" "height t \<le> fuel"
  show "getElementById fuel st i_d (root t)
       = Some (find (\<lambda>r. te_id (TreeElement_of st r) = i_d) (preorder t))"
    by (rule getElementById_find[OF h])
  have found: "\<exists>r'. getElementById fuel st (te_id (TreeElement_of st r)) (root t) = Some (Some r')
           \<and> te_id (TreeElement_of st r') = te_id (TreeElement_of st r)"
    if r: "r \<in> set (preorder t)" for r
  proof -
    let ?P = "\<lambda>x. te_id (TreeElement_of st x) = te_id (TreeElement_of st r)"
    from r have "find ?P (preorder t) \<noteq> None" by (auto simp: find_None_iff)
    then obtain r' where r': "find ?P (preorder t) = Some r'" by auto
    then have "?P r'" by (auto simp: find_Some_iff)
    with r' getElementById_find[OF h, of "te_id (TreeElement_of st r)"] show ?thesis by simp
  qed
  { fix r assume "r \<in> set (preorder t)"
    then show "\<exists>r'. getElementById fuel st (te_id (TreeElement_of st r)) (root t) = Some (Some r')
           \<and> te_id (TreeElement_of st r') = te_id (TreeElement_of st r)" by (rule found) }
  { fix c n and st0 :: "'a state"
    assume a: "st = set_child c (e_id (elements st0 n)) n st0 \<and> c \<in> set (preorder t)"
    then have "ElementRef n \<in> snd ` set (te_children (TreeElement_of st c))"
      by (simp add: set_child_is_child)
    with h(1) a have "ElementRef n \<in> set (preorder t)" by (blast intro: holds_child_in_preorder)
    from found[OF this] a
    show "\<exists>r'. getElementById fuel st (e_id (elements st0 n)) (root t) = Some (Some r')
              \<and> te_id (TreeElement_of st r') = e_id (elements st0 n)"
      by (simp add: TreeElement_of_def set_child_id) }
qed

theorem getElementById_preorder_witness:
  "holds example_state example_tree \<and> height example_tree \<le> 3
   \<and> getElementById 3 example_state ''rootprovider_0BarBaz'' ModelRef = Some (Some (ElementRef 3))
   \<and> getElementById 3 example_state ''rootprovider_0'' ModelRef = Some None"
proof -
  have h1: "holds example_state example_tree" by code_simp
  have h2: "height example_tree \<le> 3" by code_simp
  have r: "root example_tree = ModelRef" by (simp add: example_tree_def)
  have f1: "find (\<lambda>r. te_id (TreeElement_of example_state r) = ''rootprovider_0BarBaz'') (preorder example_tree) = Some (ElementRef 3)"
    by code_simp
  have f2: "find (\<lambda>r. te_id (TreeElement_of example_state r) = ''rootprovider_0'') (preorder example_tree) = None"
    by code_simp
  from getElementById_preorder[OF h1 h2, of "''rootprovider_0BarBaz''"] getElementById_preorder[OF h1 h2, of "''rootprovider_0''"]
  show ?thesis using h1 h2 by (simp only: r f1 f2 simp_thms)
qed

subsection \<open>The element enclosing a position\<close>

lemma holds_element_forest:
  "holds_element st (Shape r ts) = holds_forest st (e_children (elements st r)) ts"
  by (simp add: holds_forest_def)

lemma height_forest_Cons [simp]:
  "height_forest (t # ts) = max (height t) (height_forest ts)"
  "height_forest [] = 0"
  by (simp_all add: height_forest_def)

lemma height_Shape: "height (Shape r ts) = Suc (height_forest ts)"
  by (simp add: height_forest_def)

lemma priv_getItemEnclosingPosition_enclosing:
  "holds_forest st kids ts \<Longrightarrow> height_forest ts < fuel \<Longrightarrow>
   priv_getItemEnclosingPosition fuel cp st pos kids
     = Some (enclosing (contains_at cp st pos) ts)"
proof (induction "contains_at cp st pos" ts arbitrary: kids fuel rule: enclosing.induct)
  case 1
  then show ?case by (cases fuel) (simp_all add: holds_forest_def)
next
  case (2 r ts rest)
  from "2.prems"(2) obtain n where fuel: "fuel = Suc n" by (cases fuel) auto
  from "2.prems"(1) obtain key kids' where kids: "kids = (key, r) # kids'"
    and rest: "holds_forest st kids' rest"
    and sub: "holds_forest st (e_children (elements st r)) ts"
    by (cases kids) (auto simp: holds_forest_def)
  from "2.prems"(2) have hr: "height_forest rest < fuel" and hs: "height_forest ts < n"
    by (simp_all add: fuel height_forest_def)
  show ?case
  proof (cases "contains_at cp st pos r")
    case True
    from "2.hyps"(1)[OF True sub hs] True show ?thesis
      by (simp add: kids fuel contains_at_def split: option.splits)
  next
    case False
    from "2.hyps"(2)[OF False rest hr] False show ?thesis
      by (simp add: kids fuel contains_at_def)
  qed
qed

lemma enclosing_None: "enclosing P ts = None \<longleftrightarrow> (\<forall>t \<in> set ts. \<not> P (root t))"
  by (induction P ts rule: enclosing.induct) (auto split: option.splits)

lemma subshapes_self: "s \<in> set (subshapes s)"
  by (cases s) simp

lemma enclosing_Some:
  "enclosing P ts = Some x \<Longrightarrow>
   \<exists>s \<in> set (concat (map subshapes ts)). root s = x \<and> P x \<and> (\<forall>c \<in> set (subtrees s). \<not> P (root c))"
proof (induction P ts arbitrary: x rule: enclosing.induct)
  case (1 P)
  then show ?case by simp
next
  case (2 P r ts rest)
  show ?case
  proof (cases "P r")
    case True
    show ?thesis
    proof (cases "enclosing P ts")
      case None
      with True "2.prems" have "x = r" by simp
      moreover from None have "\<forall>c \<in> set ts. \<not> P (root c)" by (simp add: enclosing_None)
      ultimately show ?thesis using True by (intro bexI[of _ "Shape r ts"]) auto
    next
      case (Some y)
      with True "2.prems" have "enclosing P ts = Some x" by simp
      from "2.IH"(1)[OF True this] show ?thesis by auto
    qed
  next
    case False
    with "2.prems" have "enclosing P rest = Some x" by simp
    from "2.IH"(2)[OF False this] show ?thesis by auto
  qed
qed

lemma nested_none_below: "nested P t \<Longrightarrow> \<not> P (root t) \<Longrightarrow> x \<in> set (preorder t) \<Longrightarrow> \<not> P x"
proof (induction t arbitrary: x)
  case (Shape r ts)
  show ?case
  proof (cases "x = r")
    case True
    with Shape.prems(2) show ?thesis by simp
  next
    case False
    with Shape.prems(3) obtain t where t: "t \<in> set ts" "x \<in> set (preorder t)" by auto
    with Shape.prems(1,2) have "nested P t" "\<not> P (root t)" by auto
    from Shape.IH[OF t(1) this t(2)] show ?thesis .
  qed
qed

lemma nested_subshape: "nested P t \<Longrightarrow> s \<in> set (subshapes t) \<Longrightarrow> nested P s"
proof (induction t)
  case (Shape r ts)
  show ?case
  proof (cases "s = Shape r ts")
    case True
    with Shape.prems(1) show ?thesis by simp
  next
    case False
    with Shape.prems(2) obtain t where t: "t \<in> set ts" "s \<in> set (subshapes t)" by auto
    with Shape.prems(1) have "nested P t" by auto
    from Shape.IH[OF t(1) this t(2)] show ?thesis .
  qed
qed

lemma nested_no_descendant:
  assumes "nested P s" and "\<forall>c \<in> set (subtrees s). \<not> P (root c)" and "d \<in> set (descendants s)"
  shows "\<not> P d"
proof -
  from assms(3) obtain c where c: "c \<in> set (subtrees s)" "d \<in> set (preorder c)"
    by (auto simp: descendants_def)
  with assms(1) have "nested P c" by (cases s) auto
  from nested_none_below[OF this _ c(2)] assms(2) c(1) show ?thesis by blast
qed

text \<open>
  Claim C4 as stated fails where ranges are not nested: \<^verbatim>\<open>A\<close> contains position 5, its
  child \<^verbatim>\<open>B\<close> does not, and the child \<^verbatim>\<open>C\<close> of \<^verbatim>\<open>B\<close> does. \<^verbatim>\<open>A\<close> is returned although its
  descendant \<^verbatim>\<open>C\<close> contains the position.
\<close>

theorem getItemEnclosingPosition_descendant_counterexample:
  "holds_forest nonnested_state (g_children (groups nonnested_state 0)) [Shape 1 [Shape 2 [Shape 3 []]]]
   \<and> OutlineGroup_getItemEnclosingPosition 4 example_contains nonnested_state 5 0 = Some (Some 1)
   \<and> 3 \<in> set (descendants (Shape (1::nat) [Shape 2 [Shape 3 []]]))
   \<and> contains_at example_contains nonnested_state 5 3"
proof -
  have a: "holds_forest nonnested_state (g_children (groups nonnested_state 0)) [Shape 1 [Shape 2 [Shape 3 []]]]"
    by code_simp
  have b: "OutlineGroup_getItemEnclosingPosition 4 example_contains nonnested_state 5 0 = Some (Some 1)"
    by code_simp
  have c: "3 \<in> set (descendants (Shape (1::nat) [Shape 2 [Shape 3 []]]))"
    by (simp add: descendants_def)
  have d: "contains_at example_contains nonnested_state 5 3"
    by code_simp
  from a b c d show ?thesis by blast
qed

text \<open>
  Claim C4, amended. On a store that holds the forest \<open>ts\<close> below the children of a group,
  \<^verbatim>\<open>getItemEnclosingPosition(p)\<close> returns the end of the walk that takes the first child (in
  map order) whose defining range, or else location range, contains \<open>p\<close>, and continues
  among the children of that child. It returns none exactly when no top-level child
  contains \<open>p\<close>. The returned element contains \<open>p\<close> and none of its children does; when
  the ranges below it are properly nested, none of its descendants does.
\<close>

theorem getItemEnclosingPosition_first_chain:
  "holds_forest st (g_children (groups st g)) ts \<Longrightarrow> height_forest ts < fuel \<Longrightarrow>
   OutlineGroup_getItemEnclosingPosition fuel cp st pos g
     = Some (enclosing (contains_at cp st pos) ts)
   \<and> (enclosing (contains_at cp st pos) ts = None
        \<longleftrightarrow> (\<forall>t \<in> set ts. \<not> contains_at cp st pos (root t)))
   \<and> (\<forall>x. enclosing (contains_at cp st pos) ts = Some x \<longrightarrow>
         (\<exists>s \<in> set (concat (map subshapes ts)).
            root s = x \<and> contains_at cp st pos x
            \<and> (\<forall>c \<in> set (subtrees s). \<not> contains_at cp st pos (root c))
            \<and> (nested (contains_at cp st pos) s
                 \<longrightarrow> (\<forall>d \<in> set (descendants s). \<not> contains_at cp st pos d))))"
proof (intro conjI allI impI)
  assume h: "holds_forest st (g_children (groups st g)) ts" "height_forest ts < fuel"
  show "OutlineGroup_getItemEnclosingPosition fuel cp st pos g
     = Some (enclosing (contains_at cp st pos) ts)"
    unfolding OutlineGroup_getItemEnclosingPosition_def
    by (rule priv_getItemEnclosingPosition_enclosing[OF h])
  show "enclosing (contains_at cp st pos) ts = None
        \<longleftrightarrow> (\<forall>t \<in> set ts. \<not> contains_at cp st pos (root t))"
    by (rule enclosing_None)
  fix x assume "enclosing (contains_at cp st pos) ts = Some x"
  from enclosing_Some[OF this] obtain s where s: "s \<in> set (concat (map subshapes ts))"
    "root s = x" "contains_at cp st pos x"
    "\<forall>c \<in> set (subtrees s). \<not> contains_at cp st pos (root c)" by blast
  have "nested (contains_at cp st pos) s
          \<longrightarrow> (\<forall>d \<in> set (descendants s). \<not> contains_at cp st pos d)"
    using nested_no_descendant[OF _ s(4)] by blast
  with s show "\<exists>s \<in> set (concat (map subshapes ts)).
            root s = x \<and> contains_at cp st pos x
            \<and> (\<forall>c \<in> set (subtrees s). \<not> contains_at cp st pos (root c))
            \<and> (nested (contains_at cp st pos) s
                 \<longrightarrow> (\<forall>d \<in> set (descendants s). \<not> contains_at cp st pos d))"
    by blast
qed

text \<open>Position 13 in the example store lies in \<^verbatim>\<open>Bar\<close> and in its child \<^verbatim>\<open>Baz\<close>, which is returned.\<close>

theorem getItemEnclosingPosition_first_chain_witness:
  "holds_forest example_state (g_children (groups example_state 0)) [Shape 1 [], Shape 2 [Shape 3 []]]
   \<and> height_forest [Shape (1::nat) [], Shape 2 [Shape 3 []]] < 3
   \<and> OutlineGroup_getItemEnclosingPosition 3 example_contains example_state 13 0 = Some (Some 3)
   \<and> nested (contains_at example_contains example_state 13) (Shape 3 [])"
proof -
  let ?ts = "[Shape (1::nat) [], Shape 2 [Shape 3 []]]"
  have h1: "holds_forest example_state (g_children (groups example_state 0)) ?ts" by code_simp
  have h2: "height_forest ?ts < 3" by code_simp
  have e: "enclosing (contains_at example_contains example_state 13) ?ts = Some 3" by code_simp
  have n: "nested (contains_at example_contains example_state 13) (Shape 3 [])" by simp
  from getItemEnclosingPosition_first_chain[OF h1 h2, of example_contains 13]
  have "OutlineGroup_getItemEnclosingPosition 3 example_contains example_state 13 0
          = Some (enclosing (contains_at example_contains example_state 13) ?ts)"
    by (rule conjunct1)
  with h1 h2 e n show ?thesis by simp
qed

lemma OutlineModel_getItemEnclosingPosition_for_first:
  "map (\<lambda>(key, g). OutlineGroup_getItemEnclosingPosition fuel cp st pos g) gs = map Some rs \<Longrightarrow>
   OutlineModel_getItemEnclosingPosition_for fuel cp st pos gs = Some (first_some rs)"
proof (induction gs arbitrary: rs)
  case Nil
  then show ?case by (simp add: first_some_def)
next
  case (Cons kg gs)
  obtain key g where kg: "kg = (key, g)" by (cases kg)
  from Cons.prems obtain r rs' where rs: "rs = r # rs'"
    and r: "OutlineGroup_getItemEnclosingPosition fuel cp st pos g = Some r"
    and rest: "map (\<lambda>(key, g). OutlineGroup_getItemEnclosingPosition fuel cp st pos g) gs = map Some rs'"
    by (cases rs) (auto simp: kg)
  from Cons.IH[OF rest] r show ?case
    by (cases r) (simp_all add: kg rs first_some_def)
qed

lemma first_some_None: "first_some rs = None \<longleftrightarrow> (\<forall>r \<in> set rs. r = None)"
  by (induction rs) (auto simp: first_some_def)

text \<open>
  Claim C8. On a store that holds a forest below every group, the model's
  \<^verbatim>\<open>getItemEnclosingPosition(p)\<close> returns the first result that is not none among the
  results of the groups in the order of \<^verbatim>\<open>_groups\<close>, with no comparison between groups,
  and none only when every group returns none.
\<close>

theorem OutlineModel_getItemEnclosingPosition_first:
  "(\<forall>(key, g) \<in> set (m_groups st).
      \<exists>ts. holds_forest st (g_children (groups st g)) ts \<and> height_forest ts < fuel) \<Longrightarrow>
   \<exists>rs. map (\<lambda>(key, g). OutlineGroup_getItemEnclosingPosition fuel cp st pos g) (m_groups st)
           = map Some rs
      \<and> OutlineModel_getItemEnclosingPosition fuel cp st pos = Some (first_some rs)
      \<and> (first_some rs = None \<longleftrightarrow> (\<forall>r \<in> set rs. r = None))"
proof -
  assume h: "\<forall>(key, g) \<in> set (m_groups st).
      \<exists>ts. holds_forest st (g_children (groups st g)) ts \<and> height_forest ts < fuel"
  have "\<exists>rs. map (\<lambda>(key, g). OutlineGroup_getItemEnclosingPosition fuel cp st pos g) gs = map Some rs"
    if "\<forall>(key, g) \<in> set gs.
      \<exists>ts. holds_forest st (g_children (groups st g)) ts \<and> height_forest ts < fuel" for gs
    using that
  proof (induction gs)
    case Nil
    then show ?case by simp
  next
    case (Cons kg gs)
    obtain key g where kg: "kg = (key, g)" by (cases kg)
    from Cons.prems have
      "\<exists>ts. holds_forest st (g_children (groups st g)) ts \<and> height_forest ts < fuel"
      by (simp add: kg)
    then obtain ts where
      ts: "holds_forest st (g_children (groups st g)) ts" "height_forest ts < fuel" by blast
    have r: "OutlineGroup_getItemEnclosingPosition fuel cp st pos g
                    = Some (enclosing (contains_at cp st pos) ts)"
      unfolding OutlineGroup_getItemEnclosingPosition_def
      by (rule priv_getItemEnclosingPosition_enclosing[OF ts])
    from Cons.prems have "\<forall>(key, g) \<in> set gs.
      \<exists>ts. holds_forest st (g_children (groups st g)) ts \<and> height_forest ts < fuel" by simp
    from Cons.IH[OF this] obtain rs where
      "map (\<lambda>(key, g). OutlineGroup_getItemEnclosingPosition fuel cp st pos g) gs = map Some rs" ..
    with r show ?case
      by (intro exI[of _ "enclosing (contains_at cp st pos) ts # rs"]) (simp add: kg)
  qed
  from this[OF h] obtain rs where
    rs: "map (\<lambda>(key, g). OutlineGroup_getItemEnclosingPosition fuel cp st pos g) (m_groups st)
           = map Some rs" ..
  from OutlineModel_getItemEnclosingPosition_for_first[OF rs]
  have m: "OutlineModel_getItemEnclosingPosition fuel cp st pos = Some (first_some rs)"
    by (simp add: OutlineModel_getItemEnclosingPosition_def)
  show ?thesis
    by (intro exI[of _ rs] conjI) (rule rs, rule m, rule first_some_None)
qed

text \<open>
  Position 7 lies in \<^verbatim>\<open>A\<close> of the first group and in \<^verbatim>\<open>C\<close>, nested in \<^verbatim>\<open>B\<close>, of the second:
  the model returns \<^verbatim>\<open>A\<close>.
\<close>

theorem OutlineModel_getItemEnclosingPosition_first_witness:
  "(\<exists>ts. holds_forest two_group_state (g_children (groups two_group_state 0)) ts \<and> height_forest ts < 3)
   \<and> (\<exists>ts. holds_forest two_group_state (g_children (groups two_group_state 1)) ts \<and> height_forest ts < 3)
   \<and> OutlineGroup_getItemEnclosingPosition 3 example_contains two_group_state 7 0 = Some (Some 2)
   \<and> OutlineGroup_getItemEnclosingPosition 3 example_contains two_group_state 7 1 = Some (Some 4)
   \<and> OutlineModel_getItemEnclosingPosition 3 example_contains two_group_state 7 = Some (Some 2)"
proof -
  have h0: "holds_forest two_group_state (g_children (groups two_group_state 0)) [Shape 2 []]
              \<and> height_forest [Shape (2::nat) []] < 3" by code_simp
  have h1: "holds_forest two_group_state (g_children (groups two_group_state 1)) [Shape 3 [Shape 4 []]]
              \<and> height_forest [Shape (3::nat) [Shape 4 []]] < 3" by code_simp
  have g0: "OutlineGroup_getItemEnclosingPosition 3 example_contains two_group_state 7 0 = Some (Some 2)"
    by code_simp
  have g1: "OutlineGroup_getItemEnclosingPosition 3 example_contains two_group_state 7 1 = Some (Some 4)"
    by code_simp
  have mg: "m_groups two_group_state = [(''rootprovider_0'', 0), (''rootprovider_1'', 1)]"
    by (simp add: two_group_state_def)
  have h: "\<forall>(key, g) \<in> set (m_groups two_group_state).
      \<exists>ts. holds_forest two_group_state (g_children (groups two_group_state g)) ts \<and> height_forest ts < 3"
    unfolding mg using h0 h1 by auto
  from OutlineModel_getItemEnclosingPosition_first[OF h, of example_contains 7]
  obtain rs where rs: "map (\<lambda>(key, g). OutlineGroup_getItemEnclosingPosition 3 example_contains two_group_state 7 g)
          (m_groups two_group_state) = map Some rs"
     "OutlineModel_getItemEnclosingPosition 3 example_contains two_group_state 7 = Some (first_some rs)"
    by blast
  from rs(1)[unfolded mg] g0 g1 have "rs = [Some 2, Some 4]"
    by (auto simp: Cons_eq_map_conv)
  with rs(2) have m: "OutlineModel_getItemEnclosingPosition 3 example_contains two_group_state 7 = Some (Some 2)"
    by (simp add: first_some_def)
  from h0 h1 g0 g1 m show ?thesis by blast
qed

subsection \<open>Matching\<close>

lemma scores_only_refl: "scores_only st st"
  by (simp add: scores_only_def)

lemma scores_only_elements:
  "scores_only st st' \<Longrightarrow> elements st' x = (elements st x)\<lparr>e_score := e_score (elements st' x)\<rparr>"
proof -
  assume "scores_only st st'"
  then have "st' = st\<lparr>elements := (\<lambda>x. (elements st x)\<lparr>e_score := e_score (elements st' x)\<rparr>)\<rparr>"
    by (simp add: scores_only_def)
  then have "elements st' = (\<lambda>x. (elements st x)\<lparr>e_score := e_score (elements st' x)\<rparr>)"
    by (metis state.select_convs(1) state.surjective state.update_convs(1))
  then show ?thesis by meson
qed

lemma scores_only_fields:
  assumes "scores_only st st'"
  shows "e_children (elements st' x) = e_children (elements st x)"
    and "e_symbol (elements st' x) = e_symbol (elements st x)"
    and "e_id (elements st' x) = e_id (elements st x)"
    and "e_parent (elements st' x) = e_parent (elements st x)"
    and "groups st' = groups st" and "m_groups st' = m_groups st"
    and "m_children st' = m_children st" and "next_ref st' = next_ref st"
proof -
  note e = scores_only_elements[OF assms, of x]
  show "e_children (elements st' x) = e_children (elements st x)" by (subst e) simp
  show "e_symbol (elements st' x) = e_symbol (elements st x)" by (subst e) simp
  show "e_id (elements st' x) = e_id (elements st x)" by (subst e) simp
  show "e_parent (elements st' x) = e_parent (elements st x)" by (subst e) simp
  from assms have s: "st' = st\<lparr>elements := (\<lambda>x. (elements st x)\<lparr>e_score := e_score (elements st' x)\<rparr>)\<rparr>"
    by (simp add: scores_only_def)
  show "groups st' = groups st" by (subst s) simp
  show "m_groups st' = m_groups st" by (subst s) simp
  show "m_children st' = m_children st" by (subst s) simp
  show "next_ref st' = next_ref st" by (subst s) simp
qed

lemma scores_onlyI:
  assumes "\<And>x. elements st' x = (elements st x)\<lparr>e_score := e_score (elements st' x)\<rparr>"
    and "groups st' = groups st" and "m_groups st' = m_groups st"
    and "m_children st' = m_children st" and "next_ref st' = next_ref st"
    and "state.more st' = state.more st"
  shows "scores_only st st'"
proof -
  have "elements st' = (\<lambda>x. (elements st x)\<lparr>e_score := e_score (elements st' x)\<rparr>)"
    using assms(1) by (intro ext)
  with assms(2-6) show ?thesis
    unfolding scores_only_def by (intro state.equality) simp_all
qed

lemma scores_only_more: "scores_only st st' \<Longrightarrow> state.more st' = state.more st"
  unfolding scores_only_def by (erule ssubst) simp

lemma scores_only_trans:
  assumes a: "scores_only st st1" and b: "scores_only st1 st2"
  shows "scores_only st st2"
proof (rule scores_onlyI)
  fix x
  have "elements st2 x = (elements st1 x)\<lparr>e_score := e_score (elements st2 x)\<rparr>"
    by (rule scores_only_elements[OF b])
  also have "elements st1 x = (elements st x)\<lparr>e_score := e_score (elements st1 x)\<rparr>"
    by (rule scores_only_elements[OF a])
  finally show "elements st2 x = (elements st x)\<lparr>e_score := e_score (elements st2 x)\<rparr>"
    by simp
qed (simp_all add: scores_only_fields[OF a] scores_only_fields[OF b]
       scores_only_more[OF a] scores_only_more[OF b])

lemma scores_only_set_score: "scores_only st (set_score item s st)"
  by (rule scores_onlyI) (simp_all add: set_score_def)

lemma set_score_score:
  "e_score (elements (set_score item s st) x) = (if x = item then s else e_score (elements st x))"
  by (simp add: set_score_def)

lemma scores_only_holds:
  "scores_only st st' \<Longrightarrow> holds_element st' t = holds_element st t"
  by (induction t) (simp add: scores_only_fields)

lemma scores_only_holds_forest:
  "scores_only st st' \<Longrightarrow> holds_forest st' kids ts = holds_forest st kids ts"
  by (simp add: holds_forest_def scores_only_holds)

lemma scores_only_own: "scores_only st st' \<Longrightarrow> own_score fz p st' = own_score fz p st"
  by (intro ext) (simp add: own_score_def scores_only_fields)

lemma map_root_subshapes: "map root (subshapes t) = preorder t"
proof (induction t)
  case (Shape r ts)
  then have "concat (map (\<lambda>t. map root (subshapes t)) ts) = concat (map preorder ts)"
    by (induction ts) auto
  then show ?case by (simp add: map_concat comp_def)
qed

lemma preorder_subshapes: "set (preorder t) = root ` set (subshapes t)"
  by (metis map_root_subshapes set_map)

lemma root_in_preorder: "root t \<in> set (preorder t)"
  by (cases t) simp

lemma preorder_of_subshape: "s \<in> set (subshapes t) \<Longrightarrow> set (preorder s) \<subseteq> set (preorder t)"
proof (induction t)
  case (Shape r ts)
  show ?case
  proof (cases "s = Shape r ts")
    case True
    then show ?thesis by simp
  next
    case False
    with Shape.prems obtain t where t: "t \<in> set ts" "s \<in> set (subshapes t)" by auto
    from Shape.IH[OF this] t(1) show ?thesis by auto
  qed
qed

lemma preorder_root_descendants: "set (preorder s) = insert (root s) (set (descendants s))"
  by (cases s) (simp add: descendants_def)

lemma expected_score_None:
  "expected_score own s = None \<longleftrightarrow> (\<forall>x \<in> set (preorder s). own x = None)"
proof (cases "own (root s)")
  case None
  then show ?thesis
    by (simp add: expected_score_def preorder_root_descendants del: not_None_eq)
next
  case (Some sc)
  then show ?thesis
    by (simp add: expected_score_def preorder_root_descendants)
qed

lemma expected_score_own: "own (root s) \<noteq> None \<Longrightarrow> expected_score own s = own (root s)"
  by (auto simp: expected_score_def)

lemma best_cases: "best own tm x = tm \<or> (best own tm x = Some x \<and> own x \<noteq> None)"
  by (auto simp: best_def split: option.splits)

lemma foldl_best_cases:
  "foldl (best own) tm xs = tm \<or> (\<exists>x \<in> set xs. foldl (best own) tm xs = Some x \<and> own x \<noteq> None)"
proof (induction xs arbitrary: tm)
  case Nil
  then show ?case by simp
next
  case (Cons a xs)
  from Cons.IH[of "best own tm a"] best_cases[of own tm a] show ?case by auto
qed

lemma subshape_root_in_preorder: "s \<in> set (subshapes t) \<Longrightarrow> root s \<in> set (preorder t)"
  by (simp add: preorder_subshapes)

lemma priv_updateMatches_for_updated:
  fixes own :: "ref \<Rightarrow> FuzzyScore option" and st :: "'r state"
  assumes IH: "\<And>t (st :: 'r state) tm. t \<in> set ts \<Longrightarrow> holds_element st t \<Longrightarrow> distinct (preorder t)
                 \<Longrightarrow> own_score fz p st = own \<Longrightarrow> top_ok own st (preorder t) tm
                 \<Longrightarrow> \<exists>st'. priv_updateMatches n fz p (root t) tm st
                             = Some (Inr (foldl (best own) tm (preorder t), st'))
                           \<and> updated own [t] st st'"
    and "holds_forest st kids ts"
    and "distinct (item # concat (map preorder ts))"
    and "own_score fz p st = own"
    and "top_ok own st (concat (map preorder ts)) tm"
  shows "\<exists>st'. priv_updateMatches_for n fz p item kids tm st
                  = Some (Inr (foldl (best own) tm (concat (map preorder ts)), st'))
           \<and> updated_item own item ts st st'"
  using assms
proof (induction ts arbitrary: kids tm st)
  case Nil
  then show ?case
    by (simp add: holds_forest_def updated_item_def scores_only_refl split: option.splits)
next
  case (Cons t ts)
  note IHt = Cons.prems(1)
  from Cons.prems(2) obtain key kids' where kids: "kids = (key, root t) # kids'"
    and ht: "holds_element st t" and hts: "holds_forest st kids' ts"
    by (cases kids) (auto simp: holds_forest_def)
  from Cons.prems(3) have dt: "distinct (preorder t)"
    and dts: "distinct (item # concat (map preorder ts))"
    and item_t: "item \<notin> set (preorder t)"
    and disj: "set (preorder t) \<inter> set (concat (map preorder ts)) = {}"
    by auto
  note own = Cons.prems(4)
  from Cons.prems(5) have tok: "top_ok own st (preorder t) tm"
    by (auto simp: top_ok_def split: option.splits)
  have t_in: "t \<in> set (t # ts)" by simp
  have IHts: "\<exists>st'. priv_updateMatches n fz p (root t') tm' s'
                             = Some (Inr (foldl (best own) tm' (preorder t'), st'))
                           \<and> updated own [t'] s' st'"
    if "t' \<in> set ts" "holds_element s' t'" "distinct (preorder t')"
       "own_score fz p s' = own" "top_ok own s' (preorder t') tm'" for t' and s' :: "'r state" and tm'
    using IHt[of t' s' tm'] that by simp
  from IHt[OF t_in ht dt own tok] obtain st1 where
    run1: "priv_updateMatches n fz p (root t) tm st
             = Some (Inr (foldl (best own) tm (preorder t), st1))"
    and up1: "updated own [t] st st1" by auto
  define tm1 where "tm1 = foldl (best own) tm (preorder t)"
  from up1 have so1: "scores_only st st1"
    and fr1: "\<And>x. x \<notin> set (preorder t) \<Longrightarrow> e_score (elements st1 x) = e_score (elements st x)"
    and ex1: "\<And>s. s \<in> set (subshapes t) \<Longrightarrow> e_score (elements st1 (root s)) = expected_score own s"
    by (auto simp: updated_def)
  define st2 where "st2 = (if e_score (elements st1 item) = None \<and> e_score (elements st1 (root t)) \<noteq> None
                           then set_score item (Some (0, [])) st1 else st1)"
  have so12: "scores_only st1 st2"
    by (simp add: st2_def scores_only_refl scores_only_set_score)
  have so2: "scores_only st st2" by (rule scores_only_trans[OF so1 so12])
  have fr2: "e_score (elements st2 x) = e_score (elements st1 x)" if "x \<noteq> item" for x
    using that by (simp add: st2_def set_score_score)
  have item1: "e_score (elements st1 item) = e_score (elements st item)"
    by (rule fr1[OF item_t])
  have root1: "e_score (elements st1 (root t)) = expected_score own t"
    by (rule ex1) (rule subshapes_self)
  have item2: "e_score (elements st2 item)
                 = (case e_score (elements st item) of
                      Some sc \<Rightarrow> Some sc
                    | None \<Rightarrow> if \<exists>x \<in> set (preorder t). own x \<noteq> None then Some (0, []) else None)"
  proof (cases "e_score (elements st item)")
    case None
    show ?thesis
    proof (cases "expected_score own t = None")
      case True
      with None item1 root1 show ?thesis
        by (simp add: st2_def expected_score_None del: not_None_eq)
    next
      case False
      then have "\<exists>x \<in> set (preorder t). own x \<noteq> None"
        by (simp add: expected_score_None del: not_None_eq)
      with None item1 root1 False show ?thesis
        by (simp add: st2_def set_score_score del: not_None_eq)
    qed
  next
    case (Some sc)
    with item1 show ?thesis by (simp add: st2_def)
  qed
  have tok2: "top_ok own st2 (concat (map preorder ts)) tm1"
  proof (cases tm1)
    case None
    then show ?thesis by (simp add: top_ok_def)
  next
    case (Some x)
    from foldl_best_cases[of own tm "preorder t"]
    consider (old) "tm1 = tm" | (new) "x \<in> set (preorder t)" "own x \<noteq> None"
      unfolding tm1_def[symmetric] Some by auto
    then show ?thesis
    proof cases
      case old
      with Some Cons.prems(5) have a: "x \<notin> set (concat (map preorder (t # ts)))" "own x \<noteq> None"
        "e_score (elements st x) = own x" by (simp_all add: top_ok_def)
      from a(1) have xt: "x \<notin> set (preorder t)" by simp
      have "e_score (elements st2 x) = own x"
      proof (cases "x = item")
        case True
        with a item1 have "e_score (elements st1 item) \<noteq> None" by simp
        then have "st2 = st1" unfolding st2_def by (simp del: not_None_eq)
        with True item1 a show ?thesis by simp
      next
        case False
        with fr2 fr1[OF xt] a show ?thesis by simp
      qed
      with a Some show ?thesis by (simp add: top_ok_def)
    next
      case new
      from new(1) obtain s where s: "s \<in> set (subshapes t)" "root s = x"
        by (auto simp: preorder_subshapes)
      from ex1[OF s(1)] s(2) new(2) have "e_score (elements st1 x) = own x"
        by (simp add: expected_score_own)
      moreover from new(1) item_t have "x \<noteq> item" by auto
      ultimately have "e_score (elements st2 x) = own x" by (simp add: fr2)
      moreover from new(1) disj have "x \<notin> set (concat (map preorder ts))" by auto
      ultimately show ?thesis using new(2) Some by (simp add: top_ok_def)
    qed
  qed
  have hts2: "holds_forest st2 kids' ts" using hts by (simp add: scores_only_holds_forest[OF so2])
  have own2: "own_score fz p st2 = own" using own by (simp add: scores_only_own[OF so2])
  from Cons.IH[OF IHts hts2 dts own2 tok2] obtain st3 where
    run3: "priv_updateMatches_for n fz p item kids' tm1 st2
             = Some (Inr (foldl (best own) tm1 (concat (map preorder ts)), st3))"
    and up3: "updated_item own item ts st2 st3"
    unfolding tm1_def by blast
  from up3 have so3: "scores_only st2 st3"
    by (simp add: updated_item_def)
  from up3 have fr3: "\<And>x. x \<notin> set (item # concat (map preorder ts))
                  \<Longrightarrow> e_score (elements st3 x) = e_score (elements st2 x)"
    unfolding updated_item_def by blast
  from up3 have ex3: "\<And>s. s \<in> set (concat (map subshapes ts))
                  \<Longrightarrow> e_score (elements st3 (root s)) = expected_score own s"
    unfolding updated_item_def by blast
  from up3 have item3: "e_score (elements st3 item)
               = (case e_score (elements st2 item) of
                    Some sc \<Rightarrow> Some sc
                  | None \<Rightarrow> if \<exists>x \<in> set (concat (map preorder ts)). own x \<noteq> None
                            then Some (0, []) else None)"
    unfolding updated_item_def by blast
  have run: "priv_updateMatches_for n fz p item kids tm st
               = Some (Inr (foldl (best own) tm (concat (map preorder (t # ts))), st3))"
    using run1 run3 by (simp add: kids tm1_def st2_def)
  have frame: "e_score (elements st3 x) = e_score (elements st x)"
    if "x \<notin> set (item # concat (map preorder (t # ts)))" for x
  proof -
    from that have "x \<noteq> item" "x \<notin> set (preorder t)" "x \<notin> set (item # concat (map preorder ts))"
      by auto
    with fr3 fr2 fr1 show ?thesis by simp
  qed
  have expected: "e_score (elements st3 (root s)) = expected_score own s"
    if "s \<in> set (concat (map subshapes (t # ts)))" for s
  proof (cases "s \<in> set (subshapes t)")
    case True
    then have r: "root s \<in> set (preorder t)" by (rule subshape_root_in_preorder)
    with item_t disj have "root s \<noteq> item" "root s \<notin> set (item # concat (map preorder ts))"
      by auto
    with fr3 fr2 ex1[OF True] show ?thesis by simp
  next
    case False
    with that have "s \<in> set (concat (map subshapes ts))" by auto
    then show ?thesis by (rule ex3)
  qed
  have item_final: "e_score (elements st3 item)
               = (case e_score (elements st item) of
                    Some sc \<Rightarrow> Some sc
                  | None \<Rightarrow> if \<exists>x \<in> set (concat (map preorder (t # ts))). own x \<noteq> None
                            then Some (0, []) else None)"
  proof (cases "e_score (elements st item)")
    case None
    show ?thesis
    proof (cases "\<exists>x \<in> set (preorder t). own x \<noteq> None")
      case True
      then have "\<exists>x \<in> set (concat (map preorder (t # ts))). own x \<noteq> None" by auto
      with None True show ?thesis unfolding item3 item2 by (simp del: not_None_eq)
    next
      case False
      then have "(\<exists>x \<in> set (concat (map preorder (t # ts))). own x \<noteq> None)
                   = (\<exists>x \<in> set (concat (map preorder ts)). own x \<noteq> None)" by auto
      with None False show ?thesis unfolding item3 item2 by (simp del: not_None_eq)
    qed
  next
    case (Some sc)
    then show ?thesis unfolding item3 item2 by simp
  qed
  have "updated_item own item (t # ts) st st3"
    unfolding updated_item_def
  proof (intro conjI allI impI ballI)
    show "scores_only st st3" by (rule scores_only_trans[OF so2 so3])
    show "e_score (elements st3 x) = e_score (elements st x)"
      if "x \<notin> set (item # concat (map preorder (t # ts)))" for x
      using that by (rule frame)
    show "e_score (elements st3 (root s)) = expected_score own s"
      if "s \<in> set (concat (map subshapes (t # ts)))" for s
      using that by (rule expected)
    show "e_score (elements st3 item)
               = (case e_score (elements st item) of
                    Some sc \<Rightarrow> Some sc
                  | None \<Rightarrow> if \<exists>x \<in> set (concat (map preorder (t # ts))). own x \<noteq> None
                            then Some (0, []) else None)"
      by (rule item_final)
  qed
  with run show ?case by blast
qed

lemma pick_topMatch_best:
  assumes "e_score (elements st item) = own item"
    and "top_ok own st [item] tm"
  shows "pick_topMatch st item tm = Inr (best own tm item)"
proof (cases "own item")
  case None
  with assms(1) show ?thesis by (simp add: pick_topMatch_def best_def)
next
  case (Some s)
  show ?thesis
  proof (cases tm)
    case None
    with Some assms(1) show ?thesis by (simp add: pick_topMatch_def best_def)
  next
    case tm: (Some x)
    with assms(2) obtain sx where "own x = Some sx" "e_score (elements st x) = Some sx"
      by (auto simp: top_ok_def)
    with Some tm assms(1) show ?thesis by (simp add: pick_topMatch_def best_def)
  qed
qed

lemma priv_updateMatches_updated:
  fixes st :: "'r state" and own :: "ref \<Rightarrow> FuzzyScore option"
  assumes "holds_element st t" and "distinct (preorder t)" and "height t \<le> fuel"
    and "own_score fz p st = own" and "top_ok own st (preorder t) tm"
  shows "\<exists>st'. priv_updateMatches fuel fz p (root t) tm st
                  = Some (Inr (foldl (best own) tm (preorder t), st'))
               \<and> updated own [t] st st'"
  using assms
proof (induction t arbitrary: fuel st tm)
  case (Shape item ts)
  from Shape.prems(3) obtain n where fuel: "fuel = Suc n" and hn: "height_forest ts \<le> n"
    by (cases fuel) (auto simp: height_forest_def)
  note own = Shape.prems(4)
  from Shape.prems(2) have d: "distinct (item # concat (map preorder ts))" by simp
  define st1 where "st1 = set_score item (own item) st"
  have so1: "scores_only st st1" by (simp add: st1_def scores_only_set_score)
  have sc1: "e_score (elements st1 x) = (if x = item then own item else e_score (elements st x))" for x
    by (simp add: st1_def set_score_score)
  have own_item: "fz p (name (e_symbol (elements st item))) = own item"
    using own by (auto simp: own_score_def)
  have tok1: "top_ok own st1 [item] tm"
    using Shape.prems(5) by (auto simp: top_ok_def sc1 split: option.splits)
  have pick: "pick_topMatch st1 item tm = Inr (best own tm item)"
    by (rule pick_topMatch_best[OF _ tok1]) (simp add: sc1)
  have kids1: "e_children (elements st1 item) = e_children (elements st item)"
    by (rule scores_only_fields[OF so1])
  from Shape.prems(1) have "holds_forest st (e_children (elements st item)) ts"
    by (simp add: holds_forest_def)
  then have hf1: "holds_forest st1 (e_children (elements st1 item)) ts"
    by (simp add: kids1 scores_only_holds_forest[OF so1])
  have own1: "own_score fz p st1 = own" using own by (simp add: scores_only_own[OF so1])
  have tok2: "top_ok own st1 (concat (map preorder ts)) (best own tm item)"
  proof -
    from best_cases[of own tm item]
    consider (old) "best own tm item = tm" | (new) "best own tm item = Some item" "own item \<noteq> None"
      by auto
    then show ?thesis
    proof cases
      case old
      with Shape.prems(5) show ?thesis
        by (auto simp: top_ok_def sc1 split: option.splits)
    next
      case new
      with d show ?thesis by (simp add: top_ok_def sc1)
    qed
  qed
  have IH: "\<exists>st'. priv_updateMatches n fz p (root t') tm' s'
                             = Some (Inr (foldl (best own) tm' (preorder t'), st'))
                           \<and> updated own [t'] s' st'"
    if "t' \<in> set ts" "holds_element s' t'" "distinct (preorder t')"
       "own_score fz p s' = own" "top_ok own s' (preorder t') tm'"
    for t' and s' :: "'r state" and tm'
  proof -
    from height_subtree[OF that(1)] hn have "height t' \<le> n" by (simp add: height_forest_def)
    from Shape.IH[OF that(1,2,3) this that(4,5)] show ?thesis .
  qed
  from priv_updateMatches_for_updated[OF IH hf1 d own1 tok2] obtain st' where
    run: "priv_updateMatches_for n fz p item (e_children (elements st1 item)) (best own tm item) st1
            = Some (Inr (foldl (best own) (best own tm item) (concat (map preorder ts)), st'))"
    and up: "updated_item own item ts st1 st'" by blast
  from up have so: "scores_only st1 st'" by (simp add: updated_item_def)
  from up have fr: "\<And>x. x \<notin> set (item # concat (map preorder ts))
                  \<Longrightarrow> e_score (elements st' x) = e_score (elements st1 x)"
    unfolding updated_item_def by blast
  from up have ex: "\<And>s. s \<in> set (concat (map subshapes ts))
                  \<Longrightarrow> e_score (elements st' (root s)) = expected_score own s"
    unfolding updated_item_def by blast
  from up have it: "e_score (elements st' item)
               = (case e_score (elements st1 item) of
                    Some sc \<Rightarrow> Some sc
                  | None \<Rightarrow> if \<exists>x \<in> set (concat (map preorder ts)). own x \<noteq> None
                            then Some (0, []) else None)"
    unfolding updated_item_def by blast
  have result: "priv_updateMatches fuel fz p (root (Shape item ts)) tm st
                  = Some (Inr (foldl (best own) tm (preorder (Shape item ts)), st'))"
    using run pick by (simp add: fuel own_item st1_def[symmetric])
  have "updated own [Shape item ts] st st'"
    unfolding updated_def
  proof (intro conjI allI impI ballI)
    show "scores_only st st'" by (rule scores_only_trans[OF so1 so])
    show "e_score (elements st' x) = e_score (elements st x)"
      if "x \<notin> set (concat (map preorder [Shape item ts]))" for x
    proof -
      from that have "x \<notin> set (item # concat (map preorder ts))" "x \<noteq> item" by auto
      with fr sc1 show ?thesis by simp
    qed
    show "e_score (elements st' (root s)) = expected_score own s"
      if "s \<in> set (concat (map subshapes [Shape item ts]))" for s
    proof (cases "s = Shape item ts")
      case True
      have "e_score (elements st' item) = expected_score own (Shape item ts)"
        unfolding it sc1 by (auto simp: expected_score_def descendants_def split: option.splits)
      with True show ?thesis by simp
    next
      case False
      with that have "s \<in> set (concat (map subshapes ts))" by auto
      then show ?thesis by (rule ex)
    qed
  qed
  with result show ?case by blast
qed

lemma updateMatches_for_updated:
  fixes st :: "'r state" and own :: "ref \<Rightarrow> FuzzyScore option"
  assumes "holds_forest st kids ts" and "distinct (concat (map preorder ts))"
    and "height_forest ts \<le> fuel"
    and "own_score fz p st = own" and "top_ok own st (concat (map preorder ts)) tm"
  shows "\<exists>st'. updateMatches_for fuel fz p kids tm st
                  = Some (Inr (foldl (best own) tm (concat (map preorder ts)), st'))
               \<and> updated own ts st st'"
  using assms
proof (induction ts arbitrary: kids tm st)
  case Nil
  then show ?case by (simp add: holds_forest_def updated_def scores_only_refl)
next
  case (Cons t ts)
  from Cons.prems(1) obtain key kids' where kids: "kids = (key, root t) # kids'"
    and ht: "holds_element st t" and hts: "holds_forest st kids' ts"
    by (cases kids) (auto simp: holds_forest_def)
  from Cons.prems(2) have dt: "distinct (preorder t)"
    and dts: "distinct (concat (map preorder ts))"
    and disj: "set (preorder t) \<inter> set (concat (map preorder ts)) = {}"
    by auto
  from Cons.prems(3) have h1: "height t \<le> fuel" and h2: "height_forest ts \<le> fuel" by simp_all
  note own = Cons.prems(4)
  from Cons.prems(5) have tok: "top_ok own st (preorder t) tm"
    by (auto simp: top_ok_def split: option.splits)
  from priv_updateMatches_updated[OF ht dt h1 own tok] obtain st1 where
    run1: "priv_updateMatches fuel fz p (root t) tm st
             = Some (Inr (foldl (best own) tm (preorder t), st1))"
    and up1: "updated own [t] st st1" by auto
  define tm1 where "tm1 = foldl (best own) tm (preorder t)"
  from up1 have so1: "scores_only st st1"
    and fr1: "\<And>x. x \<notin> set (preorder t) \<Longrightarrow> e_score (elements st1 x) = e_score (elements st x)"
    and ex1: "\<And>s. s \<in> set (subshapes t) \<Longrightarrow> e_score (elements st1 (root s)) = expected_score own s"
    by (auto simp: updated_def)
  have tok1: "top_ok own st1 (concat (map preorder ts)) tm1"
  proof (cases tm1)
    case None
    then show ?thesis by (simp add: top_ok_def)
  next
    case (Some x)
    from foldl_best_cases[of own tm "preorder t"]
    consider (old) "tm1 = tm" | (new) "x \<in> set (preorder t)" "own x \<noteq> None"
      unfolding tm1_def[symmetric] Some by auto
    then show ?thesis
    proof cases
      case old
      with Some Cons.prems(5) have a: "x \<notin> set (concat (map preorder (t # ts)))" "own x \<noteq> None"
        "e_score (elements st x) = own x" by (simp_all add: top_ok_def)
      from a(1) have xt: "x \<notin> set (preorder t)" by simp
      with fr1 a Some show ?thesis by (simp add: top_ok_def)
    next
      case new
      from new(1) obtain s where s: "s \<in> set (subshapes t)" "root s = x"
        by (auto simp: preorder_subshapes)
      from ex1[OF s(1)] s(2) new(2) have "e_score (elements st1 x) = own x"
        by (simp add: expected_score_own)
      moreover from new(1) disj have "x \<notin> set (concat (map preorder ts))" by auto
      ultimately show ?thesis using new(2) Some by (simp add: top_ok_def)
    qed
  qed
  have hts1: "holds_forest st1 kids' ts" using hts by (simp add: scores_only_holds_forest[OF so1])
  have own1: "own_score fz p st1 = own" using own by (simp add: scores_only_own[OF so1])
  from Cons.IH[OF hts1 dts h2 own1 tok1] obtain st3 where
    run3: "updateMatches_for fuel fz p kids' tm1 st1
             = Some (Inr (foldl (best own) tm1 (concat (map preorder ts)), st3))"
    and up3: "updated own ts st1 st3" by blast
  from up3 have so3: "scores_only st1 st3"
    and fr3: "\<And>x. x \<notin> set (concat (map preorder ts)) \<Longrightarrow> e_score (elements st3 x) = e_score (elements st1 x)"
    and ex3: "\<And>s. s \<in> set (concat (map subshapes ts)) \<Longrightarrow> e_score (elements st3 (root s)) = expected_score own s"
    by (auto simp: updated_def)
  have run: "updateMatches_for fuel fz p kids tm st
               = Some (Inr (foldl (best own) tm (concat (map preorder (t # ts))), st3))"
    using run1 run3 by (simp add: kids tm1_def)
  have "updated own (t # ts) st st3"
    unfolding updated_def
  proof (intro conjI allI impI ballI)
    show "scores_only st st3" by (rule scores_only_trans[OF so1 so3])
    show "e_score (elements st3 x) = e_score (elements st x)"
      if "x \<notin> set (concat (map preorder (t # ts)))" for x
    proof -
      from that have "x \<notin> set (preorder t)" "x \<notin> set (concat (map preorder ts))" by auto
      with fr3 fr1 show ?thesis by simp
    qed
    show "e_score (elements st3 (root s)) = expected_score own s"
      if "s \<in> set (concat (map subshapes (t # ts)))" for s
    proof (cases "s \<in> set (subshapes t)")
      case True
      then have "root s \<in> set (preorder t)" by (rule subshape_root_in_preorder)
      with disj have "root s \<notin> set (concat (map preorder ts))" by auto
      with fr3 ex1[OF True] show ?thesis by simp
    next
      case False
      with that have "s \<in> set (concat (map subshapes ts))" by auto
      then show ?thesis by (rule ex3)
    qed
  qed
  with run show ?case by blast
qed

lemma best_valid: "tm_valid own tm \<Longrightarrow> tm_valid own (best own tm a)"
  by (auto simp: tm_valid_def best_def split: option.splits)

lemma best_None: "best own tm a = None \<longleftrightarrow> tm = None \<and> own a = None"
  by (auto simp: best_def split: option.splits)

lemma best_ge_old:
  "tm = Some t \<Longrightarrow> own t = Some st \<Longrightarrow> \<exists>r sr. best own tm a = Some r \<and> own r = Some sr \<and> fst st \<le> fst sr"
proof (cases "own a")
  case None
  assume "tm = Some t" "own t = Some st"
  with None show ?thesis by (intro exI[of _ t] exI[of _ st]) (simp add: best_def)
next
  case (Some sa)
  assume a: "tm = Some t" "own t = Some st"
  show ?thesis
  proof (cases "fst st < fst sa")
    case True
    with a Some show ?thesis by (intro exI[of _ a] exI[of _ sa]) (simp add: best_def)
  next
    case False
    with a Some show ?thesis by (intro exI[of _ t] exI[of _ st]) (simp add: best_def)
  qed
qed

lemma best_ge_new:
  "tm_valid own tm \<Longrightarrow> own a = Some sa \<Longrightarrow> \<exists>r sr. best own tm a = Some r \<and> own r = Some sr \<and> fst sa \<le> fst sr"
proof (cases tm)
  case None
  assume "own a = Some sa"
  with None show ?thesis by (intro exI[of _ a] exI[of _ sa]) (simp add: best_def)
next
  case (Some t)
  assume a: "tm_valid own tm" "own a = Some sa"
  with Some obtain st where st: "own t = Some st" by (auto simp: tm_valid_def)
  show ?thesis
  proof (cases "fst st < fst sa")
    case True
    with a Some st show ?thesis by (intro exI[of _ a] exI[of _ sa]) (simp add: best_def)
  next
    case False
    with a Some st show ?thesis by (intro exI[of _ t] exI[of _ st]) (simp add: best_def)
  qed
qed

lemma foldl_best_ge_old:
  "tm = Some t \<Longrightarrow> own t = Some st \<Longrightarrow>
   \<exists>r sr. foldl (best own) tm xs = Some r \<and> own r = Some sr \<and> fst st \<le> fst sr"
proof (induction xs arbitrary: tm t st)
  case Nil
  then show ?case by (intro exI[of _ t] exI[of _ st]) simp
next
  case (Cons a xs)
  from best_ge_old[where own=own and a=a, OF Cons.prems] obtain r sr where
    r: "best own tm a = Some r" "own r = Some sr" "fst st \<le> fst sr" by blast
  from Cons.IH[of "best own tm a" r sr, OF r(1,2)] obtain r' sr' where
    "foldl (best own) (best own tm a) xs = Some r'" "own r' = Some sr'" "fst sr \<le> fst sr'" by blast
  with r(3) show ?case by (intro exI[of _ r'] exI[of _ sr']) simp
qed

lemma foldl_best_ge:
  "tm_valid own tm \<Longrightarrow> x \<in> set xs \<Longrightarrow> own x = Some sx \<Longrightarrow>
   \<exists>r sr. foldl (best own) tm xs = Some r \<and> own r = Some sr \<and> fst sx \<le> fst sr"
proof (induction xs arbitrary: tm)
  case Nil
  then show ?case by simp
next
  case (Cons a xs)
  show ?case
  proof (cases "x = a")
    case True
    from best_ge_new[where own=own and a=a and sa=sx, OF Cons.prems(1)] Cons.prems(3) True obtain r sr where
      r: "best own tm a = Some r" "own r = Some sr" "fst sx \<le> fst sr" by blast
    from foldl_best_ge_old[where own=own and xs=xs, OF r(1,2)] obtain r' sr' where
      "foldl (best own) (best own tm a) xs = Some r'" "own r' = Some sr'" "fst sr \<le> fst sr'" by blast
    with r(3) show ?thesis by (intro exI[of _ r'] exI[of _ sr']) simp
  next
    case False
    with Cons.prems(2) have "x \<in> set xs" by simp
    from Cons.IH[OF best_valid[OF Cons.prems(1)] this Cons.prems(3)] show ?thesis by simp
  qed
qed

lemma foldl_best_None:
  "foldl (best own) tm xs = None \<longleftrightarrow> tm = None \<and> (\<forall>x \<in> set xs. own x = None)"
  by (induction xs arbitrary: tm) (auto simp: best_None)

lemma foldl_best_member:
  "foldl (best own) None xs = Some r \<Longrightarrow> r \<in> set xs \<and> own r \<noteq> None"
  using foldl_best_cases[of own None xs] by auto

lemma best_displaced:
  "best own (Some t) a = Some a \<Longrightarrow> t \<noteq> a \<Longrightarrow> own t = Some st \<Longrightarrow>
   \<exists>sa. own a = Some sa \<and> fst st < fst sa"
  by (auto simp: best_def split: option.splits if_splits)

lemma foldl_best_not_later:
  assumes d: "distinct (xs @ x # ys @ y # zs)"
    and x: "own x = Some (v, a)" and y: "own y = Some (v, b)"
  shows "foldl (best own) None (xs @ x # ys @ y # zs) \<noteq> Some y"
proof -
  have xin: "x \<in> set (xs @ x # ys)" by simp
  have v0: "tm_valid own None" by (simp add: tm_valid_def)
  from foldl_best_ge[where own=own, OF v0 xin x] obtain r sr where
    r: "foldl (best own) None (xs @ x # ys) = Some r" "own r = Some sr" "v \<le> fst sr"
    by auto
  from foldl_best_member[OF r(1)] d have ry: "r \<noteq> y" by auto
  have stay: "best own (Some r) y = Some r"
    using r(2,3) y by (simp add: best_def)
  have "foldl (best own) None (xs @ x # ys @ y # zs) = foldl (best own) (Some r) zs"
    using r(1) stay by (simp del: foldl_append add: foldl_append[of _ _ "xs @ x # ys", simplified])
  moreover from foldl_best_cases[of own "Some r" zs] d ry
  have "foldl (best own) (Some r) zs \<noteq> Some y" by auto
  ultimately show ?thesis by simp
qed

lemma foldl_best_earlier_smaller:
  assumes d: "distinct (xs @ r # zs)"
    and res: "foldl (best own) None (xs @ r # zs) = Some r"
    and x: "x \<in> set xs" "own x = Some sx"
  shows "\<exists>sr. own r = Some sr \<and> fst sx < fst sr"
proof -
  have v0: "tm_valid own None" by (simp add: tm_valid_def)
  from foldl_best_ge[where own=own, OF v0 x] obtain r1 s1 where
    r1: "foldl (best own) None xs = Some r1" "own r1 = Some s1" "fst sx \<le> fst s1"
    by auto
  from foldl_best_member[OF r1(1)] d have ne: "r1 \<noteq> r" by auto
  from res r1(1) have res': "foldl (best own) (best own (Some r1) r) zs = Some r" by simp
  from foldl_best_cases[of own "best own (Some r1) r" zs] d res'
  have "best own (Some r1) r = Some r" by auto
  from best_displaced[OF this ne r1(2)] r1(3) show ?thesis by auto
qed

lemma OutlineGroup_updateMatches_updated:
  fixes st :: "'r state"
  assumes "holds_forest st (g_children (groups st g)) ts"
    and "distinct (concat (map preorder ts))" and "height_forest ts \<le> fuel"
  shows "\<exists>st'. OutlineGroup_updateMatches fuel fz p g None st
                  = Some (Inr (foldl (best (own_score fz p st)) None (concat (map preorder ts)), st'))
               \<and> updated (own_score fz p st) ts st st'"
  unfolding OutlineGroup_updateMatches_def
  by (rule updateMatches_for_updated[OF assms refl]) (simp add: top_ok_def)

lemma descendants_subshape_subset:
  "s \<in> set (subshapes t) \<Longrightarrow> set (descendants s) \<subseteq> set (preorder t)"
  using preorder_of_subshape[of s t] preorder_root_descendants[of s] by auto

lemma forest_subshape_subset:
  "s \<in> set (concat (map subshapes ts)) \<Longrightarrow> set (preorder s) \<subseteq> set (concat (map preorder ts))"
  using preorder_of_subshape by fastforce

text \<open>
  Claim C2. On a store that holds the forest \<open>ts\<close> of distinct elements below the children
  of a group, \<^verbatim>\<open>updateMatches(p)\<close> (no best match yet) returns, and afterwards: an element
  whose own score against \<open>p\<close> is empty has the score \<^verbatim>\<open>[0, []]\<close> when a descendant has a
  non-empty own score and an empty score when none has; an element with an own score has
  that score. The call returns none when nothing matches and otherwise an element of the
  forest whose own match value is the greatest. When exactly one element \<open>l\<close> matches,
  \<open>l\<close> is returned, every ancestor of \<open>l\<close> has the score \<^verbatim>\<open>[0, []]\<close> and every other element
  an empty score.
\<close>

theorem updateMatches_propagation:
  fixes st :: "'r state"
  shows "holds_forest st (g_children (groups st g)) ts \<Longrightarrow>
   distinct (concat (map preorder ts)) \<Longrightarrow> height_forest ts \<le> fuel \<Longrightarrow>
   \<exists>tm st'. OutlineGroup_updateMatches fuel fz p g None st = Some (Inr (tm, st'))
     \<and> (\<forall>s \<in> set (concat (map subshapes ts)).
           (own_score fz p st (root s) = None \<and> (\<exists>d \<in> set (descendants s). own_score fz p st d \<noteq> None)
              \<longrightarrow> e_score (elements st' (root s)) = Some (0, []))
         \<and> (own_score fz p st (root s) = None \<and> (\<forall>d \<in> set (descendants s). own_score fz p st d = None)
              \<longrightarrow> e_score (elements st' (root s)) = None)
         \<and> (own_score fz p st (root s) \<noteq> None
              \<longrightarrow> e_score (elements st' (root s)) = own_score fz p st (root s)))
     \<and> (tm = None \<longleftrightarrow> (\<forall>x \<in> set (concat (map preorder ts)). own_score fz p st x = None))
     \<and> (\<forall>r. tm = Some r \<longrightarrow>
           r \<in> set (concat (map preorder ts))
           \<and> (\<exists>sr. own_score fz p st r = Some sr
                 \<and> (\<forall>x \<in> set (concat (map preorder ts)). \<forall>sx.
                       own_score fz p st x = Some sx \<longrightarrow> fst sx \<le> fst sr)))
     \<and> (\<forall>l \<in> set (concat (map preorder ts)).
           (\<forall>x \<in> set (concat (map preorder ts)). own_score fz p st x \<noteq> None \<longleftrightarrow> x = l) \<longrightarrow>
           tm = Some l
           \<and> (\<forall>s \<in> set (concat (map subshapes ts)).
                 e_score (elements st' (root s))
                   = (if root s = l then own_score fz p st l
                      else if l \<in> set (descendants s) then Some (0, []) else None)))"
proof -
  assume h: "holds_forest st (g_children (groups st g)) ts"
    "distinct (concat (map preorder ts))" "height_forest ts \<le> fuel"
  define own where "own = own_score fz p st"
  define forest where "forest = concat (map preorder ts)"
  define tm where "tm = foldl (best own) None forest"
  from OutlineGroup_updateMatches_updated[OF h, of fz p] obtain st' where
    run: "OutlineGroup_updateMatches fuel fz p g None st = Some (Inr (tm, st'))"
    and up: "updated own ts st st'"
    unfolding own_def tm_def forest_def by blast
  from up have ex: "\<And>s. s \<in> set (concat (map subshapes ts))
                  \<Longrightarrow> e_score (elements st' (root s)) = expected_score own s"
    unfolding updated_def by blast
  have scores: "(own (root s) = None \<and> (\<exists>d \<in> set (descendants s). own d \<noteq> None)
              \<longrightarrow> e_score (elements st' (root s)) = Some (0, []))
         \<and> (own (root s) = None \<and> (\<forall>d \<in> set (descendants s). own d = None)
              \<longrightarrow> e_score (elements st' (root s)) = None)
         \<and> (own (root s) \<noteq> None \<longrightarrow> e_score (elements st' (root s)) = own (root s))"
    if "s \<in> set (concat (map subshapes ts))" for s
    unfolding ex[OF that] by (auto simp: expected_score_def split: option.splits)
  have none: "tm = None \<longleftrightarrow> (\<forall>x \<in> set forest. own x = None)"
    unfolding tm_def by (simp add: foldl_best_None)
  have v0: "tm_valid own None" by (simp add: tm_valid_def)
  have bestp: "r \<in> set forest
           \<and> (\<exists>sr. own r = Some sr
                 \<and> (\<forall>x \<in> set forest. \<forall>sx. own x = Some sx \<longrightarrow> fst sx \<le> fst sr))"
    if r: "tm = Some r" for r
  proof -
    from r foldl_best_member[of own forest r] have m: "r \<in> set forest" "own r \<noteq> None"
      by (simp_all add: tm_def)
    then obtain sr where sr: "own r = Some sr" by auto
    have "fst sx \<le> fst sr" if "x \<in> set forest" "own x = Some sx" for x sx
    proof -
      from foldl_best_ge[where own=own, OF v0 that] obtain r' sr' where
        "foldl (best own) None forest = Some r'" "own r' = Some sr'" "fst sx \<le> fst sr'" by blast
      with r sr show ?thesis by (simp add: tm_def)
    qed
    with m(1) sr show ?thesis by blast
  qed
  have single: "tm = Some l
           \<and> (\<forall>s \<in> set (concat (map subshapes ts)).
                 e_score (elements st' (root s))
                   = (if root s = l then own l
                      else if l \<in> set (descendants s) then Some (0, []) else None))"
    if l: "l \<in> set forest" and only: "\<forall>x \<in> set forest. own x \<noteq> None \<longleftrightarrow> x = l" for l
  proof (intro conjI ballI)
    from l only have "own l \<noteq> None" by blast
    with l none obtain r where r: "tm = Some r" by (cases tm) auto
    from bestp[OF r] only have "r = l" by auto
    with r show "tm = Some l" by simp
  next
    fix s assume s: "s \<in> set (concat (map subshapes ts))"
    from forest_subshape_subset[OF s] have sub: "set (preorder s) \<subseteq> set forest"
      by (simp add: forest_def)
    then have rs: "root s \<in> set forest" and ds: "set (descendants s) \<subseteq> set forest"
      by (auto simp: preorder_root_descendants)
    from l only have ownl: "own l \<noteq> None" by blast
    show "e_score (elements st' (root s))
            = (if root s = l then own l
               else if l \<in> set (descendants s) then Some (0, []) else None)"
    proof (cases "root s = l")
      case True
      with ownl show ?thesis unfolding ex[OF s] by (simp add: expected_score_own)
    next
      case False
      with rs only have n: "own (root s) = None" by blast
      show ?thesis
      proof (cases "l \<in> set (descendants s)")
        case True
        with ownl have "\<exists>d \<in> set (descendants s). own d \<noteq> None" by blast
        with n False True show ?thesis
          unfolding ex[OF s] by (simp add: expected_score_def del: not_None_eq)
      next
        case nd: False
        have "\<forall>d \<in> set (descendants s). own d = None"
        proof
          fix d assume d: "d \<in> set (descendants s)"
          with ds have "d \<in> set forest" by blast
          moreover from d nd have "d \<noteq> l" by blast
          ultimately show "own d = None" using only by blast
        qed
        with n False nd show ?thesis
          unfolding ex[OF s] by (simp add: expected_score_def del: not_None_eq)
      qed
    qed
  qed
  show ?thesis
    unfolding own_def[symmetric] forest_def[symmetric]
  proof (intro exI[of _ tm] exI[of _ st'] conjI)
    show "OutlineGroup_updateMatches fuel fz p g None st = Some (Inr (tm, st'))" by (rule run)
    show "\<forall>s \<in> set (concat (map subshapes ts)).
           (own (root s) = None \<and> (\<exists>d \<in> set (descendants s). own d \<noteq> None)
              \<longrightarrow> e_score (elements st' (root s)) = Some (0, []))
         \<and> (own (root s) = None \<and> (\<forall>d \<in> set (descendants s). own d = None)
              \<longrightarrow> e_score (elements st' (root s)) = None)
         \<and> (own (root s) \<noteq> None \<longrightarrow> e_score (elements st' (root s)) = own (root s))"
      using scores by blast
    show "tm = None \<longleftrightarrow> (\<forall>x \<in> set forest. own x = None)" by (rule none)
    show "\<forall>r. tm = Some r \<longrightarrow>
           r \<in> set forest
           \<and> (\<exists>sr. own r = Some sr
                 \<and> (\<forall>x \<in> set forest. \<forall>sx. own x = Some sx \<longrightarrow> fst sx \<le> fst sr))"
      using bestp by blast
    show "\<forall>l \<in> set forest.
           (\<forall>x \<in> set forest. own x \<noteq> None \<longleftrightarrow> x = l) \<longrightarrow>
           tm = Some l
           \<and> (\<forall>s \<in> set (concat (map subshapes ts)).
                 e_score (elements st' (root s))
                   = (if root s = l then own l
                      else if l \<in> set (descendants s) then Some (0, []) else None))"
      using single by blast
  qed
qed

text \<open>
  Claim C3. Under the same conditions the element returned by \<^verbatim>\<open>updateMatches(p)\<close> is the
  accumulator \<^const>\<open>best\<close> folded over the elements in the order of evaluation, which an
  element displaces only with a strictly greater match value (the first match
  unconditionally). Hence of two elements with equal match value the later one is never
  returned, and every matching element evaluated before the returned one has a strictly
  smaller match value.
\<close>

theorem updateMatches_first_wins:
  fixes st :: "'r state"
  shows "holds_forest st (g_children (groups st g)) ts \<Longrightarrow>
   distinct (concat (map preorder ts)) \<Longrightarrow> height_forest ts \<le> fuel \<Longrightarrow>
   \<exists>st'. OutlineGroup_updateMatches fuel fz p g None st
           = Some (Inr (foldl (best (own_score fz p st)) None (concat (map preorder ts)), st'))
     \<and> (\<forall>xs x ys y zs v a b.
           concat (map preorder ts) = xs @ x # ys @ y # zs
           \<and> own_score fz p st x = Some (v, a) \<and> own_score fz p st y = Some (v, b)
           \<longrightarrow> foldl (best (own_score fz p st)) None (concat (map preorder ts)) \<noteq> Some y)
     \<and> (\<forall>xs r zs x sx.
           concat (map preorder ts) = xs @ r # zs
           \<and> foldl (best (own_score fz p st)) None (concat (map preorder ts)) = Some r
           \<and> x \<in> set xs \<and> own_score fz p st x = Some sx
           \<longrightarrow> (\<exists>sr. own_score fz p st r = Some sr \<and> fst sx < fst sr))"
proof -
  assume h: "holds_forest st (g_children (groups st g)) ts"
    "distinct (concat (map preorder ts))" "height_forest ts \<le> fuel"
  from OutlineGroup_updateMatches_updated[OF h, of fz p] obtain st' where
    run: "OutlineGroup_updateMatches fuel fz p g None st
           = Some (Inr (foldl (best (own_score fz p st)) None (concat (map preorder ts)), st'))"
    by blast
  have tie: "foldl (best (own_score fz p st)) None (concat (map preorder ts)) \<noteq> Some y"
    if "concat (map preorder ts) = xs @ x # ys @ y # zs
           \<and> own_score fz p st x = Some (v, a) \<and> own_score fz p st y = Some (v, b)"
    for xs x ys y zs v a b
  proof -
    from that h(2) have d: "distinct (xs @ x # ys @ y # zs)" by simp
    from that have e: "concat (map preorder ts) = xs @ x # ys @ y # zs"
      and x: "own_score fz p st x = Some (v, a)" and y: "own_score fz p st y = Some (v, b)"
      by simp_all
    show ?thesis unfolding e by (rule foldl_best_not_later[OF d x y])
  qed
  have early: "\<exists>sr. own_score fz p st r = Some sr \<and> fst sx < fst sr"
    if "concat (map preorder ts) = xs @ r # zs
           \<and> foldl (best (own_score fz p st)) None (concat (map preorder ts)) = Some r
           \<and> x \<in> set xs \<and> own_score fz p st x = Some sx"
    for xs r zs x sx
  proof -
    from that h(2) have d: "distinct (xs @ r # zs)" by simp
    from that have "foldl (best (own_score fz p st)) None (concat (map preorder ts)) = Some r"
      and e: "concat (map preorder ts) = xs @ r # zs" by blast+
    then have res: "foldl (best (own_score fz p st)) None (xs @ r # zs) = Some r"
      by (simp only:)
    from that have x: "x \<in> set xs" "own_score fz p st x = Some sx" by blast+
    show ?thesis by (rule foldl_best_earlier_smaller[OF d res x])
  qed
  from run tie early show ?thesis by blast
qed

text \<open>
  The pattern \<^verbatim>\<open>Baz\<close> on the example store: \<^verbatim>\<open>Baz\<close> is returned, its parent \<^verbatim>\<open>Bar\<close> has the score
  \<^verbatim>\<open>[0, []]\<close> and \<^verbatim>\<open>Foo\<close> has an empty score.
\<close>

theorem updateMatches_propagation_witness:
  "holds_forest example_state (g_children (groups example_state 0)) [Shape 1 [], Shape 2 [Shape 3 []]]
   \<and> distinct (concat (map preorder [Shape (1::nat) [], Shape 2 [Shape 3 []]]))
   \<and> height_forest [Shape (1::nat) [], Shape 2 [Shape 3 []]] \<le> 3
   \<and> (\<exists>tm st'. OutlineGroup_updateMatches 3 example_fuzzyScore ''Baz'' 0 None example_state
                   = Some (Inr (tm, st'))
          \<and> tm = Some 3
          \<and> e_score (elements st' 1) = None
          \<and> e_score (elements st' 2) = Some (0, [])
          \<and> e_score (elements st' 3) = Some (10, [0]))"
proof -
  let ?ts = "[Shape (1::nat) [], Shape 2 [Shape 3 []]]"
  let ?own = "own_score example_fuzzyScore ''Baz'' example_state"
  have h1: "holds_forest example_state (g_children (groups example_state 0)) ?ts" by code_simp
  have h2: "distinct (concat (map preorder ?ts))" by simp
  have h3: "height_forest ?ts \<le> 3" by code_simp
  have o1: "?own 1 = None" by code_simp
  have o2: "?own 2 = None" by code_simp
  have o3: "?own 3 = Some (10, [0])" by code_simp
  have forest: "concat (map preorder ?ts) = [1, 2, 3]" by simp
  have subs: "concat (map subshapes ?ts) = [Shape 1 [], Shape 2 [Shape 3 []], Shape 3 []]" by simp
  from updateMatches_propagation[OF h1 h2 h3, of example_fuzzyScore "''Baz''"]
  obtain tm st' where
    run: "OutlineGroup_updateMatches 3 example_fuzzyScore ''Baz'' 0 None example_state
            = Some (Inr (tm, st'))"
    and single: "\<forall>l \<in> set (concat (map preorder ?ts)).
           (\<forall>x \<in> set (concat (map preorder ?ts)). ?own x \<noteq> None \<longleftrightarrow> x = l) \<longrightarrow>
           tm = Some l
           \<and> (\<forall>s \<in> set (concat (map subshapes ?ts)).
                 e_score (elements st' (root s))
                   = (if root s = l then ?own l
                      else if l \<in> set (descendants s) then Some (0, []) else None))"
    by blast
  have only: "\<forall>x \<in> set (concat (map preorder ?ts)). ?own x \<noteq> None \<longleftrightarrow> x = 3"
    unfolding forest using o1 o2 o3 by simp
  have "3 \<in> set (concat (map preorder ?ts))" by simp
  with single only have tm: "tm = Some 3"
    and sc: "\<forall>s \<in> set (concat (map subshapes ?ts)).
                 e_score (elements st' (root s))
                   = (if root s = 3 then ?own 3
                      else if 3 \<in> set (descendants s) then Some (0, []) else None)"
    by blast+
  from sc have "e_score (elements st' 1) = None" "e_score (elements st' 2) = Some (0, [])"
    "e_score (elements st' 3) = Some (10, [0])"
    unfolding subs by (simp_all add: descendants_def o3)
  with h1 h2 h3 run tm show ?thesis by blast
qed

text \<open>Two elements with the same own score: the one evaluated first is returned.\<close>

theorem updateMatches_first_wins_witness:
  "holds_forest tie_state (g_children (groups tie_state 0)) [Shape 1 [], Shape 2 []]
   \<and> distinct (concat (map preorder [Shape (1::nat) [], Shape 2 []]))
   \<and> height_forest [Shape (1::nat) [], Shape 2 []] \<le> 2
   \<and> own_score example_fuzzyScore ''ab'' tie_state 1 = Some (10, [0])
   \<and> own_score example_fuzzyScore ''ab'' tie_state 2 = Some (10, [0])
   \<and> (\<exists>st'. OutlineGroup_updateMatches 2 example_fuzzyScore ''ab'' 0 None tie_state
                = Some (Inr (Some 1, st')))"
proof -
  let ?ts = "[Shape (1::nat) [], Shape 2 []]"
  let ?own = "own_score example_fuzzyScore ''ab'' tie_state"
  have h1: "holds_forest tie_state (g_children (groups tie_state 0)) ?ts" by code_simp
  have h2: "distinct (concat (map preorder ?ts))" by simp
  have h3: "height_forest ?ts \<le> 2" by code_simp
  have o1: "?own 1 = Some (10, [0])" by code_simp
  have o2: "?own 2 = Some (10, [0])" by code_simp
  have f: "foldl (best ?own) None (concat (map preorder ?ts)) = Some 1"
    by code_simp
  from updateMatches_first_wins[OF h1 h2 h3, of example_fuzzyScore "''ab''"]
  obtain st' where "OutlineGroup_updateMatches 2 example_fuzzyScore ''ab'' 0 None tie_state
           = Some (Inr (foldl (best ?own) None (concat (map preorder ?ts)), st'))"
    by blast
  with f have "\<exists>st'. OutlineGroup_updateMatches 2 example_fuzzyScore ''ab'' 0 None tie_state
                = Some (Inr (Some 1, st'))" by (simp only:) blast
  with h1 h2 h3 o1 o2 show ?thesis by blast
qed

end
